theory Spec2Isabelle
  imports Complex_Main "HOL-Library.Word" "HOL-Library.Log_Nat"
begin

section \<open>The size-constrained encoding search of optimize-images.js\<close>

text \<open>
  The development embeds \<^verbatim>\<open>findBestEncode\<close> (src/optimize-images.js, lines 95-142):
  a binary search over the encoder quality inside a loop over decreasing widths, followed
  by a best-effort encode when nothing fits.

  Numbers. The script's numbers are JavaScript doubles. Widths, byte lengths and the
  downscale counter are modelled as \<open>nat\<close>, qualities as \<open>int\<close> (the upper bound of the
  binary search drops to \<open>minQ - 1\<close>, which is \<open>-1\<close> for \<open>minQ = 0\<close>), and the scale step
  as an exact rational: the rounding of the double product \<^verbatim>\<open>width * SCALE_STEP\<close> is
  not modelled, and the command line is taken to give whole numbers for the widths, the
  qualities and the round limit.
\<close>

subsection \<open>Data\<close>

type_synonym buffer = "8 word list"

datatype error = EncoderFailure string

text \<open>
  The run-wide constants of lines 56-62: \<^verbatim>\<open>TARGET_BYTES\<close>, \<^verbatim>\<open>MAX_WIDTH\<close>, \<^verbatim>\<open>MIN_Q\<close>,
  \<^verbatim>\<open>MAX_Q\<close>, \<^verbatim>\<open>MAX_DOWNSCALES\<close> and \<^verbatim>\<open>SCALE_STEP\<close>. \<^verbatim>\<open>EFFORT\<close> only reaches the
  encoder, which is a parameter below.
\<close>

record config =
  targetBytes :: nat
  maxWidth :: nat
  minQ :: int
  maxQ :: int
  maxDownscales :: nat
  scaleStep :: rat

text \<open>The values the script computes when no flag is given.\<close>

definition defaultConfig :: config where
  "defaultConfig =
     \<lparr>targetBytes = 300 * 1024, maxWidth = 1600, minQ = 65, maxQ = 95,
      maxDownscales = 4, scaleStep = 9 / 10\<rparr>"

text \<open>The ranges that the clamping of lines 56-62 leaves for the constants.\<close>

definition validConfig :: "config \<Rightarrow> bool" where
  "validConfig cfg \<longleftrightarrow>
     1024 \<le> targetBytes cfg \<and> 1 \<le> maxWidth cfg \<and>
     0 \<le> minQ cfg \<and> minQ cfg \<le> maxQ cfg \<and> maxQ cfg \<le> 100 \<and>
     1 / 2 \<le> scaleStep cfg \<and> scaleStep cfg \<le> 99 / 100"

text \<open>
  The object literals of lines 110 and 132-138. The literal of line 110 has no
  \<^verbatim>\<open>bestEffort\<close> property (reading it gives \<^verbatim>\<open>undefined\<close>): \<open>None\<close>; the literal of
  lines 132-138 has \<^verbatim>\<open>bestEffort: true\<close>: \<open>Some True\<close>.
\<close>

record outcome =
  buf :: buffer
  width :: nat
  quality :: int
  bytes :: nat
  bestEffort :: "bool option"

text \<open>
  \<^verbatim>\<open>encodeWebPBuffer(inputPath, width, quality)\<close>: the buffer, or the error that the
  rejected promise carries. The encoder is a function of its three arguments: the same
  call gives the same answer, as for the deterministic encoder of the specification.
\<close>

type_synonym encoder = "string \<Rightarrow> nat \<Rightarrow> int \<Rightarrow> error + buffer"

subsection \<open>Operations\<close>

text \<open>\<^verbatim>\<open>Math.round(s / 2)\<close> for a whole number \<open>s\<close>: a half is rounded towards plus infinity.\<close>

definition roundHalf :: "int \<Rightarrow> int" where
  "roundHalf s = (s + 1) div 2"

text \<open>\<^verbatim>\<open>width || MAX_WIDTH\<close> on a number: zero is falsy.\<close>

definition widthOr :: "nat \<Rightarrow> nat \<Rightarrow> nat" where
  "widthOr w d = (if w = 0 then d else w)"

text \<open>
  \<^verbatim>\<open>metaWidth || MAX_WIDTH\<close>: \<^verbatim>\<open>metaWidth\<close> is \<^verbatim>\<open>meta.width\<close> of the image metadata,
  a number or \<^verbatim>\<open>undefined\<close> (\<open>None\<close>).
\<close>

definition metaWidthOr :: "nat option \<Rightarrow> nat \<Rightarrow> nat" where
  "metaWidthOr mw d = (case mw of None \<Rightarrow> d | Some w \<Rightarrow> widthOr w d)"

text \<open>\<^verbatim>\<open>Math.min(metaWidth || MAX_WIDTH, MAX_WIDTH)\<close>, lines 97, 131 and 134.\<close>

definition startWidth :: "config \<Rightarrow> nat option \<Rightarrow> nat" where
  "startWidth cfg mw = min (metaWidthOr mw (maxWidth cfg)) (maxWidth cfg)"

text \<open>\<^verbatim>\<open>Math.max(320, Math.floor((width || MAX_WIDTH) * SCALE_STEP))\<close>, line 122.\<close>

definition nextWidth :: "config \<Rightarrow> nat \<Rightarrow> nat" where
  "nextWidth cfg w =
     max 320 (nat \<lfloor>rat_of_nat (widthOr w (maxWidth cfg)) * scaleStep cfg\<rfloor>)"

text \<open>
  The inner loop, lines 106-115, from the loop state \<open>(lo, hi, bestLocal)\<close>. It returns
  the qualities it passed to the encoder, in order, and either the error of the encoder or
  \<^verbatim>\<open>bestLocal\<close> at the exit of the loop. An encoder error ends the loop: the
  \<^verbatim>\<open>await\<close> throws and nothing catches it.
\<close>

function qualitySearch ::
  "config \<Rightarrow> encoder \<Rightarrow> string \<Rightarrow> nat \<Rightarrow> int \<Rightarrow> int \<Rightarrow> outcome option
     \<Rightarrow> int list \<times> (error + outcome option)" where
  "qualitySearch cfg enc inputPath w lo hi bestLocal =
     (if lo \<le> hi then
        (let mid = roundHalf (lo + hi) in
         case enc inputPath w mid of
           Inl e \<Rightarrow> ([mid], Inl e)
         | Inr b \<Rightarrow>
             (let (qs, r) =
                (if length b \<le> targetBytes cfg
                 then qualitySearch cfg enc inputPath w (mid + 1) hi
                        (Some \<lparr>buf = b, width = w, quality = mid, bytes = length b,
                               bestEffort = None\<rparr>)
                 else qualitySearch cfg enc inputPath w lo (mid - 1) bestLocal)
              in (mid # qs, r)))
      else ([], Inr bestLocal))"
  by pat_completeness auto
termination
  by (relation "measure (\<lambda>(cfg, enc, inputPath, w, lo, hi, bestLocal). nat (hi - lo + 1))")
     (auto simp: roundHalf_def)

text \<open>
  The outer loop, lines 101-127, from the loop state \<open>(width, attempt)\<close>; \<^verbatim>\<open>best\<close> is
  \<^verbatim>\<open>null\<close> until the round that leaves the loop. It returns the rounds it ran, each with
  its width and the qualities probed, and either the error of the encoder or \<^verbatim>\<open>best\<close>
  at the exit of the loop.
\<close>

function descent ::
  "config \<Rightarrow> encoder \<Rightarrow> string \<Rightarrow> nat \<Rightarrow> nat
     \<Rightarrow> (nat \<times> int list) list \<times> (error + outcome option)" where
  "descent cfg enc inputPath w attempt =
     (if attempt \<le> maxDownscales cfg then
        (case qualitySearch cfg enc inputPath w (minQ cfg) (maxQ cfg) None of
           (qs, Inl e) \<Rightarrow> ([(w, qs)], Inl e)
         | (qs, Inr (Some bestLocal)) \<Rightarrow> ([(w, qs)], Inr (Some bestLocal))
         | (qs, Inr None) \<Rightarrow>
             (if nextWidth cfg w = w then ([(w, qs)], Inr None)
              else (let (rs, r) = descent cfg enc inputPath (nextWidth cfg w) (attempt + 1)
                    in ((w, qs) # rs, r))))
      else ([], Inr None))"
  by pat_completeness auto
termination
  by (relation "measure (\<lambda>(cfg, enc, inputPath, w, attempt). maxDownscales cfg + 1 - attempt)")
     auto

text \<open>The encoder calls of a list of rounds, in order: (width, quality).\<close>

definition callsOf :: "(nat \<times> int list) list \<Rightarrow> (nat \<times> int) list" where
  "callsOf rs = concat (map (\<lambda>(w, qs). map (Pair w) qs) rs)"

text \<open>
  \<^verbatim>\<open>findBestEncode(inputPath, metaWidth)\<close>: all the encoder calls in order, and the
  returned object or the error thrown.
\<close>

definition findBestEncode ::
  "config \<Rightarrow> encoder \<Rightarrow> string \<Rightarrow> nat option \<Rightarrow> (nat \<times> int) list \<times> (error + outcome)" where
  "findBestEncode cfg enc inputPath metaWidth =
     (case descent cfg enc inputPath (startWidth cfg metaWidth) 0 of
        (rs, Inl e) \<Rightarrow> (callsOf rs, Inl e)
      | (rs, Inr (Some best)) \<Rightarrow> (callsOf rs, Inr best)
      | (rs, Inr None) \<Rightarrow>
          (case enc inputPath (startWidth cfg metaWidth) (minQ cfg) of
             Inl e \<Rightarrow> (callsOf rs @ [(startWidth cfg metaWidth, minQ cfg)], Inl e)
           | Inr b \<Rightarrow>
               (callsOf rs @ [(startWidth cfg metaWidth, minQ cfg)],
                Inr \<lparr>buf = b, width = startWidth cfg metaWidth, quality = minQ cfg,
                     bytes = length b, bestEffort = Some True\<rparr>)))"

subsection \<open>Auxiliary notions and sample inputs\<close>

text \<open>An encoder call (width, quality) that returns a buffer.\<close>

definition succeeds :: "encoder \<Rightarrow> string \<Rightarrow> nat \<times> int \<Rightarrow> bool" where
  "succeeds enc p c = (case enc p (fst c) (snd c) of Inl e \<Rightarrow> False | Inr b \<Rightarrow> True)"

text \<open>The byte length of an encode; 0 stands in where the encoder fails.\<close>

definition encBytes :: "encoder \<Rightarrow> string \<Rightarrow> nat \<Rightarrow> int \<Rightarrow> nat" where
  "encBytes enc p w q = (case enc p w q of Inl e \<Rightarrow> 0 | Inr b \<Rightarrow> length b)"

text \<open>
  A synthetic encoder with the linear size model \<open>width * quality * k\<close> bytes, an
  encoder that rejects every source, and one that agrees with the synthetic encoder from
  1000 pixels up and fails below.
\<close>

definition syntheticEncoder :: "nat \<Rightarrow> encoder" where
  "syntheticEncoder k inputPath w q = Inr (replicate (w * nat q * k) 0)"

definition corruptEncoder :: encoder where
  "corruptEncoder inputPath w q = Inl (EncoderFailure ''unsupported image format'')"

definition wideOnlyEncoder :: "nat \<Rightarrow> encoder" where
  "wideOnlyEncoder k inputPath w q =
     (if w < 1000 then Inl (EncoderFailure ''width not supported'')
      else syntheticEncoder k inputPath w q)"

text \<open>The constants for \<^verbatim>\<open>--target 1\<close> and for \<^verbatim>\<open>--minQ 80 --maxQ 80\<close>.\<close>

definition thumbnailConfig :: config where
  "thumbnailConfig = defaultConfig\<lparr>targetBytes := 1 * 1024\<rparr>"

definition fixedQualityConfig :: config where
  "fixedQualityConfig = defaultConfig\<lparr>minQ := 80, maxQ := 80\<rparr>"

declare qualitySearch.simps [simp del]
declare descent.simps [simp del]

section \<open>The quality search\<close>

text \<open>
  The four ways through one iteration of the inner loop, as equations, and the induction
  rule that follows them.
\<close>

lemma roundHalf_bounds: "lo \<le> hi \<Longrightarrow> lo \<le> roundHalf (lo + hi) \<and> roundHalf (lo + hi) \<le> hi"
  by (simp add: roundHalf_def) linarith

lemma qualitySearch_exit:
  "\<not> lo \<le> hi \<Longrightarrow> qualitySearch cfg enc p w lo hi best = ([], Inr best)"
  by (simp add: qualitySearch.simps)

lemma qualitySearch_fail:
  "lo \<le> hi \<Longrightarrow> enc p w (roundHalf (lo + hi)) = Inl e \<Longrightarrow>
   qualitySearch cfg enc p w lo hi best = ([roundHalf (lo + hi)], Inl e)"
  by (simp add: qualitySearch.simps [of cfg enc p w lo hi])

lemma qualitySearch_fit:
  "lo \<le> hi \<Longrightarrow> enc p w (roundHalf (lo + hi)) = Inr b \<Longrightarrow> length b \<le> targetBytes cfg \<Longrightarrow>
   qualitySearch cfg enc p w lo hi best =
     (roundHalf (lo + hi) #
        fst (qualitySearch cfg enc p w (roundHalf (lo + hi) + 1) hi
          (Some \<lparr>buf = b, width = w, quality = roundHalf (lo + hi), bytes = length b,
                 bestEffort = None\<rparr>)),
      snd (qualitySearch cfg enc p w (roundHalf (lo + hi) + 1) hi
          (Some \<lparr>buf = b, width = w, quality = roundHalf (lo + hi), bytes = length b,
                 bestEffort = None\<rparr>)))"
  by (simp add: qualitySearch.simps [of cfg enc p w lo hi] case_prod_beta Let_def)

lemma qualitySearch_nofit:
  "lo \<le> hi \<Longrightarrow> enc p w (roundHalf (lo + hi)) = Inr b \<Longrightarrow> \<not> length b \<le> targetBytes cfg \<Longrightarrow>
   qualitySearch cfg enc p w lo hi best =
     (roundHalf (lo + hi) # fst (qualitySearch cfg enc p w lo (roundHalf (lo + hi) - 1) best),
      snd (qualitySearch cfg enc p w lo (roundHalf (lo + hi) - 1) best))"
  by (simp add: qualitySearch.simps [of cfg enc p w lo hi] case_prod_beta Let_def)

lemma qualitySearch_induct [case_names exit fail fit nofit]:
  assumes "\<And>lo hi best. \<not> lo \<le> hi \<Longrightarrow> P lo hi best"
    and "\<And>lo hi best e. lo \<le> hi \<Longrightarrow> enc p w (roundHalf (lo + hi)) = Inl e \<Longrightarrow> P lo hi best"
    and "\<And>lo hi best b. lo \<le> hi \<Longrightarrow> enc p w (roundHalf (lo + hi)) = Inr b \<Longrightarrow>
           length b \<le> targetBytes cfg \<Longrightarrow>
           P (roundHalf (lo + hi) + 1) hi
             (Some \<lparr>buf = b, width = w, quality = roundHalf (lo + hi), bytes = length b,
                    bestEffort = None\<rparr>) \<Longrightarrow>
           P lo hi best"
    and "\<And>lo hi best b. lo \<le> hi \<Longrightarrow> enc p w (roundHalf (lo + hi)) = Inr b \<Longrightarrow>
           \<not> length b \<le> targetBytes cfg \<Longrightarrow>
           P lo (roundHalf (lo + hi) - 1) best \<Longrightarrow> P lo hi best"
  shows "P lo hi (best :: outcome option)"
proof (induction "nat (hi - lo + 1)" arbitrary: lo hi best rule: less_induct)
  case less
  show ?case
  proof (cases "lo \<le> hi")
    case False
    then show ?thesis by (rule assms(1))
  next
    case True
    note b = roundHalf_bounds [OF True]
    show ?thesis
    proof (cases "enc p w (roundHalf (lo + hi))")
      case (Inl e)
      with True show ?thesis by (rule assms(2))
    next
      case (Inr b)
      show ?thesis
      proof (cases "length b \<le> targetBytes cfg")
        case True
        have "nat (hi - (roundHalf (lo + hi) + 1) + 1) < nat (hi - lo + 1)"
          using b by linarith
        then show ?thesis
          by (intro assms(3) [OF \<open>lo \<le> hi\<close> Inr True] less)
      next
        case False
        have "nat (roundHalf (lo + hi) - 1 - lo + 1) < nat (hi - lo + 1)"
          using b by linarith
        then show ?thesis
          by (intro assms(4) [OF \<open>lo \<le> hi\<close> Inr False] less)
      qed
    qed
  qed
qed

text \<open>
  A candidate at the exit of the loop is the one the loop started with, or an encode of
  this loop that fits the target.
\<close>

lemma qualitySearch_candidate:
  "snd (qualitySearch cfg enc p w lo hi best) = Inr (Some c) \<Longrightarrow>
   best = Some c \<or>
   (enc p w (quality c) = Inr (buf c) \<and> width c = w \<and> bytes c = length (buf c) \<and>
    bytes c \<le> targetBytes cfg \<and> bestEffort c = None \<and>
    quality c \<in> set (fst (qualitySearch cfg enc p w lo hi best)))"
proof (induction lo hi best rule: qualitySearch_induct [where enc = enc and p = p and w = w and cfg = cfg])
  case (exit lo hi best)
  then show ?case by (simp add: qualitySearch_exit)
next
  case (fail lo hi best e)
  then show ?case by (simp add: qualitySearch_fail)
next
  case (fit lo hi best b)
  then show ?case by (auto simp: qualitySearch_fit)
next
  case (nofit lo hi best b)
  then show ?case by (auto simp: qualitySearch_nofit)
qed

lemma qualitySearch_probes_in_range:
  "set (fst (qualitySearch cfg enc p w lo hi best)) \<subseteq> {lo..hi}"
proof (induction lo hi best rule: qualitySearch_induct [where enc = enc and p = p and w = w and cfg = cfg])
  case (exit lo hi best)
  then show ?case by (simp add: qualitySearch_exit)
next
  case (fail lo hi best e)
  then show ?case using roundHalf_bounds [of lo hi] by (simp add: qualitySearch_fail)
next
  case (fit lo hi best b)
  then show ?case using roundHalf_bounds [of lo hi] by (auto simp: qualitySearch_fit)
next
  case (nofit lo hi best b)
  then show ?case using roundHalf_bounds [of lo hi] by (auto simp: qualitySearch_nofit)
qed

text \<open>
  The encoder calls of the loop: all but the last succeed, and the loop ends with an
  error exactly when its last call fails.
\<close>

lemma qualitySearch_log:
  "(\<forall>q \<in> set (butlast (fst (qualitySearch cfg enc p w lo hi best))). succeeds enc p (w, q)) \<and>
   (case snd (qualitySearch cfg enc p w lo hi best) of
      Inl e \<Rightarrow> fst (qualitySearch cfg enc p w lo hi best) \<noteq> [] \<and>
               enc p w (last (fst (qualitySearch cfg enc p w lo hi best))) = Inl e
    | Inr r \<Rightarrow> \<forall>q \<in> set (fst (qualitySearch cfg enc p w lo hi best)). succeeds enc p (w, q))"
proof (induction lo hi best rule: qualitySearch_induct [where enc = enc and p = p and w = w and cfg = cfg])
  case (exit lo hi best)
  then show ?case by (simp add: qualitySearch_exit)
next
  case (fail lo hi best e)
  then show ?case by (simp add: qualitySearch_fail)
next
  case (fit lo hi best b)
  then show ?case by (auto simp: qualitySearch_fit succeeds_def split: sum.splits)
next
  case (nofit lo hi best b)
  then show ?case by (auto simp: qualitySearch_nofit succeeds_def split: sum.splits)
qed

text \<open>
  Each iteration leaves at most half of the range, so the number of probes is at most
  the bit length of the size of the range.
\<close>

lemma floorlog_half: "0 < n \<Longrightarrow> m \<le> n div 2 \<Longrightarrow> Suc (floorlog 2 m) \<le> floorlog 2 n"
  using floorlog_mono [of m "n div 2" 2] by (subst (2) compute_floorlog) simp

lemma qualitySearch_probe_count:
  "length (fst (qualitySearch cfg enc p w lo hi best)) \<le> floorlog 2 (nat (hi - lo + 1))"
proof (induction lo hi best rule: qualitySearch_induct [where enc = enc and p = p and w = w and cfg = cfg])
  case (exit lo hi best)
  then show ?case by (simp add: qualitySearch_exit)
next
  case (fail lo hi best e)
  then have "0 < nat (hi - lo + 1)" by simp
  then have "1 \<le> floorlog 2 (nat (hi - lo + 1))"
    by (simp add: floorlog_def)
  with fail show ?case by (simp add: qualitySearch_fail)
next
  case (fit lo hi best b)
  have "nat (hi - (roundHalf (lo + hi) + 1) + 1) \<le> nat (hi - lo + 1) div 2"
    using fit(1) by (simp add: roundHalf_def)
  from floorlog_half [OF _ this] fit show ?case by (simp add: qualitySearch_fit)
next
  case (nofit lo hi best b)
  have "nat (roundHalf (lo + hi) - 1 - lo + 1) \<le> nat (hi - lo + 1) div 2"
    using nofit(1) by (simp add: roundHalf_def)
  from floorlog_half [OF _ this] nofit show ?case by (simp add: qualitySearch_nofit)
qed

lemma qualitySearch_single:
  "fst (qualitySearch cfg enc p w q q best) = [q]"
proof -
  have r: "roundHalf (q + q) = q" by (simp add: roundHalf_def)
  have le: "q \<le> q" by simp
  show ?thesis
  proof (cases "enc p w q")
    case (Inl e)
    then have "enc p w (roundHalf (q + q)) = Inl e" by (simp only: r)
    from qualitySearch_fail [of q q enc p w e cfg best, OF le this] show ?thesis by (simp only: r fst_conv)
  next
    case (Inr b)
    then have e: "enc p w (roundHalf (q + q)) = Inr b" by (simp only: r)
    show ?thesis
    proof (cases "length b \<le> targetBytes cfg")
      case True
      have "\<not> q + 1 \<le> q" by simp
      from qualitySearch_fit [of q q enc p w b cfg best, OF le e True] qualitySearch_exit [OF this]
      show ?thesis by (simp only: r fst_conv)
    next
      case False
      have "\<not> q \<le> q - 1" by simp
      from qualitySearch_nofit [of q q enc p w b cfg best, OF le e False] qualitySearch_exit [OF this]
      show ?thesis by (simp only: r fst_conv)
    qed
  qed
qed

text \<open>
  With an encoder that succeeds on the range and whose byte length is monotone there,
  the loop returns the largest quality that fits, and keeps the incoming candidate when
  none fits.
\<close>

lemma qualitySearch_max:
  assumes "\<forall>q \<in> {lo..hi}. succeeds enc p (w, q)"
    and "\<forall>q \<in> {lo..hi}. \<forall>q' \<in> {lo..hi}. q \<le> q' \<longrightarrow> encBytes enc p w q \<le> encBytes enc p w q'"
  shows "\<exists>r. snd (qualitySearch cfg enc p w lo hi best) = Inr r \<and>
     ((\<forall>q \<in> {lo..hi}. targetBytes cfg < encBytes enc p w q) \<longrightarrow> r = best) \<and>
     ((\<exists>q \<in> {lo..hi}. encBytes enc p w q \<le> targetBytes cfg) \<longrightarrow>
        (\<exists>c. r = Some c \<and> quality c \<in> {lo..hi} \<and> enc p w (quality c) = Inr (buf c) \<and>
           width c = w \<and> bytes c = length (buf c) \<and> bytes c \<le> targetBytes cfg \<and>
           bestEffort c = None \<and>
           (\<forall>q \<in> {lo..hi}. quality c < q \<longrightarrow> targetBytes cfg < encBytes enc p w q)))"
  using assms
proof (induction lo hi best rule: qualitySearch_induct [where enc = enc and p = p and w = w and cfg = cfg])
  case (exit lo hi best)
  then show ?case by (simp add: qualitySearch_exit)
next
  case (fail lo hi best e)
  from roundHalf_bounds [OF fail(1)] fail(3) have "succeeds enc p (w, roundHalf (lo + hi))"
    by simp
  with fail(2) show ?case by (simp add: succeeds_def)
next
  case (fit lo hi best b)
  let ?mid = "roundHalf (lo + hi)"
  let ?c = "\<lparr>buf = b, width = w, quality = ?mid, bytes = length b, bestEffort = None\<rparr>"
  note bnd = roundHalf_bounds [OF fit(1)]
  have sub: "{?mid + 1..hi} \<subseteq> {lo..hi}" using bnd by auto
  have eb: "encBytes enc p w ?mid = length b" using fit(2) by (simp add: encBytes_def)
  have p1: "\<forall>q \<in> {?mid + 1..hi}. succeeds enc p (w, q)"
    using sub fit.prems(1) by blast
  have p2: "\<forall>q \<in> {?mid + 1..hi}. \<forall>q' \<in> {?mid + 1..hi}.
      q \<le> q' \<longrightarrow> encBytes enc p w q \<le> encBytes enc p w q'"
    using sub fit.prems(2) by blast
  from fit.IH [OF p1 p2] obtain r where
    r: "snd (qualitySearch cfg enc p w (?mid + 1) hi (Some ?c)) = Inr r"
    and none: "(\<forall>q \<in> {?mid + 1..hi}. targetBytes cfg < encBytes enc p w q) \<longrightarrow> r = Some ?c"
    and some: "(\<exists>q \<in> {?mid + 1..hi}. encBytes enc p w q \<le> targetBytes cfg) \<longrightarrow>
        (\<exists>c. r = Some c \<and> quality c \<in> {?mid + 1..hi} \<and> enc p w (quality c) = Inr (buf c) \<and>
           width c = w \<and> bytes c = length (buf c) \<and> bytes c \<le> targetBytes cfg \<and>
           bestEffort c = None \<and>
           (\<forall>q \<in> {?mid + 1..hi}. quality c < q \<longrightarrow> targetBytes cfg < encBytes enc p w q))"
    by blast
  have snd_eq: "snd (qualitySearch cfg enc p w lo hi best) = Inr r"
    using r by (simp add: qualitySearch_fit [where enc = enc and p = p and w = w, OF fit(1,2,3)])
  have ex: "\<exists>q \<in> {lo..hi}. encBytes enc p w q \<le> targetBytes cfg"
    using bnd eb fit(3) by (intro bexI [of _ ?mid]) auto
  have "\<exists>c. r = Some c \<and> quality c \<in> {lo..hi} \<and> enc p w (quality c) = Inr (buf c) \<and>
           width c = w \<and> bytes c = length (buf c) \<and> bytes c \<le> targetBytes cfg \<and>
           bestEffort c = None \<and>
           (\<forall>q \<in> {lo..hi}. quality c < q \<longrightarrow> targetBytes cfg < encBytes enc p w q)"
  proof (cases "\<exists>q \<in> {?mid + 1..hi}. encBytes enc p w q \<le> targetBytes cfg")
    case True
    with some obtain c where c: "r = Some c" "quality c \<in> {?mid + 1..hi}"
      "enc p w (quality c) = Inr (buf c)" "width c = w" "bytes c = length (buf c)"
      "bytes c \<le> targetBytes cfg" "bestEffort c = None"
      "\<forall>q \<in> {?mid + 1..hi}. quality c < q \<longrightarrow> targetBytes cfg < encBytes enc p w q"
      by blast
    have "\<forall>q \<in> {lo..hi}. quality c < q \<longrightarrow> targetBytes cfg < encBytes enc p w q"
      using c(2,8) by auto
    with c bnd show ?thesis by auto
  next
    case False
    then have all: "\<forall>q \<in> {?mid + 1..hi}. targetBytes cfg < encBytes enc p w q"
      by (auto simp: not_le)
    with none have "r = Some ?c" by blast
    moreover have "\<forall>q \<in> {lo..hi}. ?mid < q \<longrightarrow> targetBytes cfg < encBytes enc p w q"
      using all by auto
    ultimately show ?thesis using bnd fit(2,3) by auto
  qed
  with snd_eq ex show ?case by (auto simp: not_less [symmetric])
next
  case (nofit lo hi best b)
  let ?mid = "roundHalf (lo + hi)"
  note bnd = roundHalf_bounds [OF nofit(1)]
  have sub: "{lo..?mid - 1} \<subseteq> {lo..hi}" using bnd by auto
  have eb: "encBytes enc p w ?mid = length b" using nofit(2) by (simp add: encBytes_def)
  have big: "\<forall>q \<in> {lo..hi}. ?mid \<le> q \<longrightarrow> targetBytes cfg < encBytes enc p w q"
  proof (intro ballI impI)
    fix q assume q: "q \<in> {lo..hi}" "?mid \<le> q"
    from nofit.prems(2) bnd q have "encBytes enc p w ?mid \<le> encBytes enc p w q" by simp
    with eb nofit(3) show "targetBytes cfg < encBytes enc p w q" by simp
  qed
  have p1: "\<forall>q \<in> {lo..?mid - 1}. succeeds enc p (w, q)"
    using sub nofit.prems(1) by blast
  have p2: "\<forall>q \<in> {lo..?mid - 1}. \<forall>q' \<in> {lo..?mid - 1}.
      q \<le> q' \<longrightarrow> encBytes enc p w q \<le> encBytes enc p w q'"
    using sub nofit.prems(2) by blast
  from nofit.IH [OF p1 p2] obtain r where
    r: "snd (qualitySearch cfg enc p w lo (?mid - 1) best) = Inr r"
    and none: "(\<forall>q \<in> {lo..?mid - 1}. targetBytes cfg < encBytes enc p w q) \<longrightarrow> r = best"
    and some: "(\<exists>q \<in> {lo..?mid - 1}. encBytes enc p w q \<le> targetBytes cfg) \<longrightarrow>
        (\<exists>c. r = Some c \<and> quality c \<in> {lo..?mid - 1} \<and> enc p w (quality c) = Inr (buf c) \<and>
           width c = w \<and> bytes c = length (buf c) \<and> bytes c \<le> targetBytes cfg \<and>
           bestEffort c = None \<and>
           (\<forall>q \<in> {lo..?mid - 1}. quality c < q \<longrightarrow> targetBytes cfg < encBytes enc p w q))"
    by blast
  have snd_eq: "snd (qualitySearch cfg enc p w lo hi best) = Inr r"
    using r by (simp add: qualitySearch_nofit [where enc = enc and p = p and w = w, OF nofit(1,2,3)])
  have a: "(\<forall>q \<in> {lo..hi}. targetBytes cfg < encBytes enc p w q) \<longrightarrow> r = best"
    using none sub by blast
  have b: "(\<exists>q \<in> {lo..hi}. encBytes enc p w q \<le> targetBytes cfg) \<longrightarrow>
        (\<exists>c. r = Some c \<and> quality c \<in> {lo..hi} \<and> enc p w (quality c) = Inr (buf c) \<and>
           width c = w \<and> bytes c = length (buf c) \<and> bytes c \<le> targetBytes cfg \<and>
           bestEffort c = None \<and>
           (\<forall>q \<in> {lo..hi}. quality c < q \<longrightarrow> targetBytes cfg < encBytes enc p w q))"
  proof
    assume "\<exists>q \<in> {lo..hi}. encBytes enc p w q \<le> targetBytes cfg"
    then obtain q where q: "q \<in> {lo..hi}" "encBytes enc p w q \<le> targetBytes cfg" by blast
    with big have "q < ?mid" by (auto simp: not_le [symmetric])
    with q have "\<exists>q \<in> {lo..?mid - 1}. encBytes enc p w q \<le> targetBytes cfg"
      by (intro bexI [of _ q]) auto
    with some obtain c where c: "r = Some c" "quality c \<in> {lo..?mid - 1}"
      "enc p w (quality c) = Inr (buf c)" "width c = w" "bytes c = length (buf c)"
      "bytes c \<le> targetBytes cfg" "bestEffort c = None"
      "\<forall>q \<in> {lo..?mid - 1}. quality c < q \<longrightarrow> targetBytes cfg < encBytes enc p w q"
      by blast
    have "\<forall>q \<in> {lo..hi}. quality c < q \<longrightarrow> targetBytes cfg < encBytes enc p w q"
    proof (intro ballI impI)
      fix q' assume q': "q' \<in> {lo..hi}" "quality c < q'"
      show "targetBytes cfg < encBytes enc p w q'"
      proof (cases "?mid \<le> q'")
        case True
        with big q' show ?thesis by blast
      next
        case False
        with q' have "q' \<in> {lo..?mid - 1}" by auto
        with c(8) q'(2) show ?thesis by blast
      qed
    qed
    with c sub show "\<exists>c. r = Some c \<and> quality c \<in> {lo..hi} \<and> enc p w (quality c) = Inr (buf c) \<and>
           width c = w \<and> bytes c = length (buf c) \<and> bytes c \<le> targetBytes cfg \<and>
           bestEffort c = None \<and>
           (\<forall>q \<in> {lo..hi}. quality c < q \<longrightarrow> targetBytes cfg < encBytes enc p w q)"
      by blast
  qed
  from snd_eq a b show ?case by blast
qed

text \<open>
  A loop that starts with a candidate ends with one; a loop that ends without a
  candidate made a probe at \<open>lo\<close>, and that encode was over the target.
\<close>

lemma qualitySearch_keeps_candidate:
  "snd (qualitySearch cfg enc p w lo hi (Some c)) \<noteq> Inr None"
proof (induction lo hi "Some c" arbitrary: c
    rule: qualitySearch_induct [where enc = enc and p = p and w = w and cfg = cfg])
  case (exit lo hi)
  then show ?case by (simp add: qualitySearch_exit)
next
  case (fail lo hi e)
  then show ?case by (simp add: qualitySearch_fail)
next
  case (fit lo hi b)
  then show ?case by (simp add: qualitySearch_fit [where enc = enc and p = p and w = w])
next
  case (nofit lo hi b)
  then show ?case by (simp add: qualitySearch_nofit [where enc = enc and p = p and w = w])
qed

lemma qualitySearch_none_probed_lo:
  "lo \<le> hi \<Longrightarrow> snd (qualitySearch cfg enc p w lo hi best) = Inr None \<Longrightarrow>
   \<exists>b. enc p w lo = Inr b \<and> targetBytes cfg < length b"
proof (induction lo hi best rule: qualitySearch_induct [where enc = enc and p = p and w = w and cfg = cfg])
  case (exit lo hi best)
  then show ?case by simp
next
  case (fail lo hi best e)
  then show ?case by (simp add: qualitySearch_fail)
next
  case (fit lo hi best b)
  then show ?case
    using qualitySearch_keeps_candidate [of cfg enc p w]
    by (simp add: qualitySearch_fit [where enc = enc and p = p and w = w])
next
  case (nofit lo hi best b)
  from nofit(1,2,3,6) have r: "snd (qualitySearch cfg enc p w lo (roundHalf (lo + hi) - 1) best) = Inr None"
    by (simp add: qualitySearch_nofit [where enc = enc and p = p and w = w])
  show ?case
  proof (cases "lo \<le> roundHalf (lo + hi) - 1")
    case True
    from nofit.IH [OF True r] show ?thesis .
  next
    case False
    with roundHalf_bounds [OF nofit(1)] have "roundHalf (lo + hi) = lo" by simp
    with nofit(2,3) show ?thesis by simp
  qed
qed

text \<open>
  The loop depends on the encoder only through the calls it makes.
\<close>

lemma qualitySearch_agree:
  "\<forall>q \<in> set (fst (qualitySearch cfg enc p w lo hi best)). enc p w q = enc' p w q \<Longrightarrow>
   qualitySearch cfg enc' p w lo hi best = qualitySearch cfg enc p w lo hi best"
proof (induction lo hi best rule: qualitySearch_induct [where enc = enc and p = p and w = w and cfg = cfg])
  case (exit lo hi best)
  then show ?case by (simp add: qualitySearch_exit)
next
  case (fail lo hi best e)
  then have "enc' p w (roundHalf (lo + hi)) = Inl e"
    by (simp add: qualitySearch_fail [where enc = enc and p = p and w = w])
  with fail show ?case
    by (simp add: qualitySearch_fail [where enc = enc and p = p and w = w]
        qualitySearch_fail [where enc = enc' and p = p and w = w])
next
  case (fit lo hi best b)
  note eq = qualitySearch_fit [where enc = enc and p = p and w = w and best = best, OF fit(1,2,3)]
  from fit(5) have e': "enc' p w (roundHalf (lo + hi)) = Inr b"
    using fit(2) by (simp add: eq)
  note eq' = qualitySearch_fit [where enc = enc' and p = p and w = w and best = best, OF fit(1) e' fit(3)]
  from fit(5) have "\<forall>q\<in>set (fst (qualitySearch cfg enc p w (roundHalf (lo + hi) + 1) hi
       (Some \<lparr>buf = b, width = w, quality = roundHalf (lo + hi), bytes = length b,
          bestEffort = None\<rparr>))). enc p w q = enc' p w q"
    by (simp add: eq)
  from fit.IH [OF this] show ?case by (simp add: eq eq')
next
  case (nofit lo hi best b)
  note eq = qualitySearch_nofit [where enc = enc and p = p and w = w and best = best, OF nofit(1,2,3)]
  from nofit(5) have e': "enc' p w (roundHalf (lo + hi)) = Inr b"
    using nofit(2) by (simp add: eq)
  note eq' = qualitySearch_nofit [where enc = enc' and p = p and w = w and best = best, OF nofit(1) e' nofit(3)]
  from nofit(5) have "\<forall>q\<in>set (fst (qualitySearch cfg enc p w lo (roundHalf (lo + hi) - 1) best)).
      enc p w q = enc' p w q"
    by (simp add: eq)
  from nofit.IH [OF this] show ?case by (simp add: eq eq')
qed

section \<open>The resolution descent\<close>

text \<open>
  The five ways through one round of the outer loop, and the induction rule that follows
  them.
\<close>

lemma descent_exit:
  "\<not> attempt \<le> maxDownscales cfg \<Longrightarrow> descent cfg enc p w attempt = ([], Inr None)"
  by (simp add: descent.simps)

lemma descent_fail:
  "attempt \<le> maxDownscales cfg \<Longrightarrow>
   snd (qualitySearch cfg enc p w (minQ cfg) (maxQ cfg) None) = Inl e \<Longrightarrow>
   descent cfg enc p w attempt =
     ([(w, fst (qualitySearch cfg enc p w (minQ cfg) (maxQ cfg) None))], Inl e)"
  by (cases "qualitySearch cfg enc p w (minQ cfg) (maxQ cfg) None")
     (simp add: descent.simps [of cfg enc p w attempt] case_prod_beta)

lemma descent_found:
  "attempt \<le> maxDownscales cfg \<Longrightarrow>
   snd (qualitySearch cfg enc p w (minQ cfg) (maxQ cfg) None) = Inr (Some c) \<Longrightarrow>
   descent cfg enc p w attempt =
     ([(w, fst (qualitySearch cfg enc p w (minQ cfg) (maxQ cfg) None))], Inr (Some c))"
  by (cases "qualitySearch cfg enc p w (minQ cfg) (maxQ cfg) None")
     (simp add: descent.simps [of cfg enc p w attempt] case_prod_beta)

lemma descent_floor:
  "attempt \<le> maxDownscales cfg \<Longrightarrow>
   snd (qualitySearch cfg enc p w (minQ cfg) (maxQ cfg) None) = Inr None \<Longrightarrow>
   nextWidth cfg w = w \<Longrightarrow>
   descent cfg enc p w attempt =
     ([(w, fst (qualitySearch cfg enc p w (minQ cfg) (maxQ cfg) None))], Inr None)"
  by (cases "qualitySearch cfg enc p w (minQ cfg) (maxQ cfg) None")
     (simp add: descent.simps [of cfg enc p w attempt] case_prod_beta)

lemma descent_next:
  "attempt \<le> maxDownscales cfg \<Longrightarrow>
   snd (qualitySearch cfg enc p w (minQ cfg) (maxQ cfg) None) = Inr None \<Longrightarrow>
   nextWidth cfg w \<noteq> w \<Longrightarrow>
   descent cfg enc p w attempt =
     ((w, fst (qualitySearch cfg enc p w (minQ cfg) (maxQ cfg) None)) #
        fst (descent cfg enc p (nextWidth cfg w) (attempt + 1)),
      snd (descent cfg enc p (nextWidth cfg w) (attempt + 1)))"
  by (cases "qualitySearch cfg enc p w (minQ cfg) (maxQ cfg) None")
     (simp add: descent.simps [of cfg enc p w attempt] case_prod_beta)

lemma descent_induct [case_names exit fail found floor shrink]:
  assumes "\<And>w attempt. \<not> attempt \<le> maxDownscales cfg \<Longrightarrow> P w attempt"
    and "\<And>w attempt e. attempt \<le> maxDownscales cfg \<Longrightarrow>
           snd (qualitySearch cfg enc p w (minQ cfg) (maxQ cfg) None) = Inl e \<Longrightarrow> P w attempt"
    and "\<And>w attempt c. attempt \<le> maxDownscales cfg \<Longrightarrow>
           snd (qualitySearch cfg enc p w (minQ cfg) (maxQ cfg) None) = Inr (Some c) \<Longrightarrow>
           P w attempt"
    and "\<And>w attempt. attempt \<le> maxDownscales cfg \<Longrightarrow>
           snd (qualitySearch cfg enc p w (minQ cfg) (maxQ cfg) None) = Inr None \<Longrightarrow>
           nextWidth cfg w = w \<Longrightarrow> P w attempt"
    and "\<And>w attempt. attempt \<le> maxDownscales cfg \<Longrightarrow>
           snd (qualitySearch cfg enc p w (minQ cfg) (maxQ cfg) None) = Inr None \<Longrightarrow>
           nextWidth cfg w \<noteq> w \<Longrightarrow> P (nextWidth cfg w) (attempt + 1) \<Longrightarrow> P w attempt"
  shows "P w (attempt :: nat)"
proof (induction "maxDownscales cfg + 1 - attempt" arbitrary: w attempt rule: less_induct)
  case less
  show ?case
  proof (cases "attempt \<le> maxDownscales cfg")
    case False
    then show ?thesis by (rule assms(1))
  next
    case True
    show ?thesis
    proof (cases "snd (qualitySearch cfg enc p w (minQ cfg) (maxQ cfg) None)")
      case (Inl e)
      with True show ?thesis by (rule assms(2))
    next
      case (Inr r)
      show ?thesis
      proof (cases r)
        case (Some c)
        with True Inr show ?thesis by (simp add: assms(3))
      next
        case None
        show ?thesis
        proof (cases "nextWidth cfg w = w")
          case same: True
          with True Inr None show ?thesis by (simp add: assms(4))
        next
          case False
          have "maxDownscales cfg + 1 - (attempt + 1) < maxDownscales cfg + 1 - attempt"
            using True by simp
          from less [OF this] True Inr None False show ?thesis by (simp add: assms(5))
        qed
      qed
    qed
  qed
qed

text \<open>
  The properties of the inner loop, lifted to the rounds of the descent.
\<close>

lemma callsOf_Nil: "callsOf [] = []"
  by (simp add: callsOf_def)

lemma callsOf_Cons: "callsOf ((w, qs) # rs) = map (Pair w) qs @ callsOf rs"
  by (simp add: callsOf_def)

lemma callsOf_single: "callsOf [(w, qs)] = map (Pair w) qs"
  by (simp add: callsOf_def)

lemma set_butlast_append: "set (butlast (xs @ ys)) \<subseteq> set xs \<union> set (butlast ys)"
  by (auto simp: butlast_append dest: in_set_butlastD)

lemma round_log:
  "(\<forall>c \<in> set (butlast (map (Pair w) (fst (qualitySearch cfg enc p w lo hi best)))). succeeds enc p c) \<and>
   (case snd (qualitySearch cfg enc p w lo hi best) of
      Inl e \<Rightarrow> map (Pair w) (fst (qualitySearch cfg enc p w lo hi best)) \<noteq> [] \<and>
               enc p (fst (last (map (Pair w) (fst (qualitySearch cfg enc p w lo hi best)))))
                     (snd (last (map (Pair w) (fst (qualitySearch cfg enc p w lo hi best))))) = Inl e
    | Inr r \<Rightarrow> \<forall>c \<in> set (map (Pair w) (fst (qualitySearch cfg enc p w lo hi best))). succeeds enc p c)"
  using qualitySearch_log [of cfg enc p w lo hi best]
  by (auto simp: map_butlast [symmetric] last_map split: sum.splits)

lemma descent_log:
  "(\<forall>c \<in> set (butlast (callsOf (fst (descent cfg enc p w attempt)))). succeeds enc p c) \<and>
   (case snd (descent cfg enc p w attempt) of
      Inl e \<Rightarrow> callsOf (fst (descent cfg enc p w attempt)) \<noteq> [] \<and>
               enc p (fst (last (callsOf (fst (descent cfg enc p w attempt)))))
                     (snd (last (callsOf (fst (descent cfg enc p w attempt))))) = Inl e
    | Inr r \<Rightarrow> \<forall>c \<in> set (callsOf (fst (descent cfg enc p w attempt))). succeeds enc p c)"
proof (induction w attempt rule: descent_induct [where cfg = cfg and enc = enc and p = p])
  case (exit w attempt)
  then show ?case by (simp add: descent_exit callsOf_Nil)
next
  case (fail w attempt e)
  then show ?case
    using round_log [of w cfg enc p "minQ cfg" "maxQ cfg" None]
    by (simp add: descent_fail callsOf_single)
next
  case (found w attempt c)
  then show ?case
    using round_log [of w cfg enc p "minQ cfg" "maxQ cfg" None]
    by (simp add: descent_found callsOf_single)
next
  case (floor w attempt)
  then show ?case
    using round_log [of w cfg enc p "minQ cfg" "maxQ cfg" None]
    by (simp add: descent_floor callsOf_single)
next
  case (shrink w attempt)
  let ?qs = "fst (qualitySearch cfg enc p w (minQ cfg) (maxQ cfg) None)"
  let ?rs = "fst (descent cfg enc p (nextWidth cfg w) (attempt + 1))"
  have eq: "callsOf (fst (descent cfg enc p w attempt)) = map (Pair w) ?qs @ callsOf ?rs"
    and sn: "snd (descent cfg enc p w attempt) = snd (descent cfg enc p (nextWidth cfg w) (attempt + 1))"
    using shrink(1,2,3) by (simp_all add: descent_next callsOf_Cons)
  have ok: "\<forall>c \<in> set (map (Pair w) ?qs). succeeds enc p c"
    using round_log [of w cfg enc p "minQ cfg" "maxQ cfg" None] shrink(2) by simp
  have a: "\<forall>c \<in> set (butlast (map (Pair w) ?qs @ callsOf ?rs)). succeeds enc p c"
    using ok shrink.IH set_butlast_append [of "map (Pair w) ?qs" "callsOf ?rs"] by blast
  show ?case
  proof (cases "snd (descent cfg enc p (nextWidth cfg w) (attempt + 1))")
    case (Inl e)
    with shrink.IH have "callsOf ?rs \<noteq> []"
      "enc p (fst (last (callsOf ?rs))) (snd (last (callsOf ?rs))) = Inl e" by simp_all
    with a Inl show ?thesis by (simp add: eq sn)
  next
    case (Inr r)
    with shrink.IH have "\<forall>c \<in> set (callsOf ?rs). succeeds enc p c" by simp
    with a ok Inr show ?thesis by (auto simp: eq sn)
  qed
qed

lemma descent_candidate:
  "snd (descent cfg enc p w attempt) = Inr (Some c) \<Longrightarrow>
   enc p (width c) (quality c) = Inr (buf c) \<and> bytes c = length (buf c) \<and>
   bytes c \<le> targetBytes cfg \<and> bestEffort c = None \<and>
   minQ cfg \<le> quality c \<and> quality c \<le> maxQ cfg \<and>
   (width c, quality c) \<in> set (callsOf (fst (descent cfg enc p w attempt)))"
proof (induction w attempt rule: descent_induct [where cfg = cfg and enc = enc and p = p])
  case (exit w attempt)
  then show ?case by (simp add: descent_exit)
next
  case (fail w attempt e)
  then show ?case by (simp add: descent_fail)
next
  case (found w attempt c')
  then have c: "snd (qualitySearch cfg enc p w (minQ cfg) (maxQ cfg) None) = Inr (Some c)"
    by (simp add: descent_found)
  from qualitySearch_candidate [OF c] qualitySearch_probes_in_range [of cfg enc p w "minQ cfg" "maxQ cfg" None]
  show ?case using found(1) c by (auto simp: descent_found callsOf_single)
next
  case (floor w attempt)
  then show ?case by (simp add: descent_floor)
next
  case (shrink w attempt)
  then show ?case by (simp add: descent_next callsOf_Cons)
qed

lemma descent_rounds:
  "length (fst (descent cfg enc p w attempt)) \<le> maxDownscales cfg + 1 - attempt \<and>
   (\<forall>r \<in> set (fst (descent cfg enc p w attempt)).
      length (snd r) \<le> floorlog 2 (nat (maxQ cfg - minQ cfg + 1)))"
proof (induction w attempt rule: descent_induct [where cfg = cfg and enc = enc and p = p])
  case (exit w attempt)
  then show ?case by (simp add: descent_exit)
next
  case (fail w attempt e)
  then show ?case by (simp add: descent_fail qualitySearch_probe_count)
next
  case (found w attempt c')
  then show ?case by (simp add: descent_found qualitySearch_probe_count)
next
  case (floor w attempt)
  then show ?case by (simp add: descent_floor qualitySearch_probe_count)
next
  case (shrink w attempt)
  from shrink(1) shrink.IH
  have "Suc (length (fst (descent cfg enc p (nextWidth cfg w) (attempt + 1))))
      \<le> maxDownscales cfg + 1 - attempt"
    by linarith
  with shrink show ?case by (simp add: descent_next qualitySearch_probe_count)
qed

lemma descent_agree:
  "\<forall>c \<in> set (callsOf (fst (descent cfg enc p w attempt))). enc p (fst c) (snd c) = enc' p (fst c) (snd c) \<Longrightarrow>
   descent cfg enc' p w attempt = descent cfg enc p w attempt"
proof (induction w attempt rule: descent_induct [where cfg = cfg and enc = enc and p = p])
  case (exit w attempt)
  then show ?case by (simp add: descent_exit)
next
  case (fail w attempt e)
  then have "\<forall>q \<in> set (fst (qualitySearch cfg enc p w (minQ cfg) (maxQ cfg) None)). enc p w q = enc' p w q"
    by (simp add: descent_fail callsOf_single)
  from qualitySearch_agree [where enc = enc and enc' = enc' and p = p and w = w, OF this] fail(1,2) show ?case by (simp add: descent_fail)
next
  case (found w attempt c')
  then have "\<forall>q \<in> set (fst (qualitySearch cfg enc p w (minQ cfg) (maxQ cfg) None)). enc p w q = enc' p w q"
    by (simp add: descent_found callsOf_single)
  from qualitySearch_agree [where enc = enc and enc' = enc' and p = p and w = w, OF this] found(1,2) show ?case by (simp add: descent_found)
next
  case (floor w attempt)
  then have "\<forall>q \<in> set (fst (qualitySearch cfg enc p w (minQ cfg) (maxQ cfg) None)). enc p w q = enc' p w q"
    by (simp add: descent_floor callsOf_single)
  from qualitySearch_agree [where enc = enc and enc' = enc' and p = p and w = w, OF this] floor(1,2,3) show ?case by (simp add: descent_floor)
next
  case (shrink w attempt)
  from shrink(1,2,3,5)
  have 1: "\<forall>q \<in> set (fst (qualitySearch cfg enc p w (minQ cfg) (maxQ cfg) None)). enc p w q = enc' p w q"
    and 2: "\<forall>c \<in> set (callsOf (fst (descent cfg enc p (nextWidth cfg w) (attempt + 1)))).
       enc p (fst c) (snd c) = enc' p (fst c) (snd c)"
    by (simp_all add: descent_next callsOf_Cons ball_Un)
  from qualitySearch_agree [where enc = enc and enc' = enc' and p = p and w = w, OF 1] shrink.IH [OF 2] shrink(1,2,3) show ?case
    by (simp add: descent_next)
qed

lemma descent_none_first_round:
  "minQ cfg \<le> maxQ cfg \<Longrightarrow> snd (descent cfg enc p w 0) = Inr None \<Longrightarrow>
   \<exists>b. enc p w (minQ cfg) = Inr b \<and> targetBytes cfg < length b"
proof -
  assume le: "minQ cfg \<le> maxQ cfg" and d: "snd (descent cfg enc p w 0) = Inr None"
  have a: "0 \<le> maxDownscales cfg" by simp
  have "snd (qualitySearch cfg enc p w (minQ cfg) (maxQ cfg) None) = Inr None"
  proof (cases "snd (qualitySearch cfg enc p w (minQ cfg) (maxQ cfg) None)")
    case (Inl e)
    with d show ?thesis by (simp add: descent_fail [OF a Inl])
  next
    case (Inr r)
    show ?thesis
    proof (cases r)
      case None
      with Inr show ?thesis by simp
    next
      case (Some c)
      with Inr d show ?thesis by (simp add: descent_found [OF a])
    qed
  qed
  from qualitySearch_none_probed_lo [OF le this] show ?thesis .
qed

section \<open>The whole search\<close>

lemma succeeds_iff: "succeeds enc p c \<longleftrightarrow> (\<exists>b. enc p (fst c) (snd c) = Inr b)"
  by (cases "enc p (fst c) (snd c)") (simp_all add: succeeds_def)

text \<open>
  The four ways through \<^verbatim>\<open>findBestEncode\<close>: an error in the descent, a candidate, and
  the fallback encode failing or succeeding.
\<close>

lemma findBestEncode_fail:
  "snd (descent cfg enc p (startWidth cfg mw) 0) = Inl e \<Longrightarrow>
   findBestEncode cfg enc p mw = (callsOf (fst (descent cfg enc p (startWidth cfg mw) 0)), Inl e)"
  by (cases "descent cfg enc p (startWidth cfg mw) 0") (simp add: findBestEncode_def)

lemma findBestEncode_found:
  "snd (descent cfg enc p (startWidth cfg mw) 0) = Inr (Some c) \<Longrightarrow>
   findBestEncode cfg enc p mw = (callsOf (fst (descent cfg enc p (startWidth cfg mw) 0)), Inr c)"
  by (cases "descent cfg enc p (startWidth cfg mw) 0") (simp add: findBestEncode_def)

lemma findBestEncode_fallback_fail:
  "snd (descent cfg enc p (startWidth cfg mw) 0) = Inr None \<Longrightarrow>
   enc p (startWidth cfg mw) (minQ cfg) = Inl e \<Longrightarrow>
   findBestEncode cfg enc p mw =
     (callsOf (fst (descent cfg enc p (startWidth cfg mw) 0)) @ [(startWidth cfg mw, minQ cfg)],
      Inl e)"
  by (cases "descent cfg enc p (startWidth cfg mw) 0") (simp add: findBestEncode_def)

lemma findBestEncode_fallback:
  "snd (descent cfg enc p (startWidth cfg mw) 0) = Inr None \<Longrightarrow>
   enc p (startWidth cfg mw) (minQ cfg) = Inr b \<Longrightarrow>
   findBestEncode cfg enc p mw =
     (callsOf (fst (descent cfg enc p (startWidth cfg mw) 0)) @ [(startWidth cfg mw, minQ cfg)],
      Inr \<lparr>buf = b, width = startWidth cfg mw, quality = minQ cfg, bytes = length b,
           bestEffort = Some True\<rparr>)"
  by (cases "descent cfg enc p (startWidth cfg mw) 0") (simp add: findBestEncode_def)

lemma findBestEncode_cases [case_names fail found fallback_fail fallback]:
  assumes "\<And>e. snd (descent cfg enc p (startWidth cfg mw) 0) = Inl e \<Longrightarrow> R"
    and "\<And>c. snd (descent cfg enc p (startWidth cfg mw) 0) = Inr (Some c) \<Longrightarrow> R"
    and "\<And>e. snd (descent cfg enc p (startWidth cfg mw) 0) = Inr None \<Longrightarrow>
           enc p (startWidth cfg mw) (minQ cfg) = Inl e \<Longrightarrow> R"
    and "\<And>b. snd (descent cfg enc p (startWidth cfg mw) 0) = Inr None \<Longrightarrow>
           enc p (startWidth cfg mw) (minQ cfg) = Inr b \<Longrightarrow> R"
  shows R
proof (cases "snd (descent cfg enc p (startWidth cfg mw) 0)")
  case (Inl e)
  then show ?thesis by (rule assms(1))
next
  case (Inr r)
  show ?thesis
  proof (cases r)
    case None
    with Inr have n: "snd (descent cfg enc p (startWidth cfg mw) 0) = Inr None" by simp
    show ?thesis
      by (cases "enc p (startWidth cfg mw) (minQ cfg)") (auto intro: assms(3,4) [OF n])
  next
    case (Some c)
    with Inr show ?thesis by (simp add: assms(2))
  qed
qed

lemma findBestEncode_log:
  "(\<forall>c \<in> set (butlast (fst (findBestEncode cfg enc p mw))). succeeds enc p c) \<and>
   (case snd (findBestEncode cfg enc p mw) of
      Inl e \<Rightarrow> fst (findBestEncode cfg enc p mw) \<noteq> [] \<and>
               enc p (fst (last (fst (findBestEncode cfg enc p mw))))
                     (snd (last (fst (findBestEncode cfg enc p mw)))) = Inl e
    | Inr r \<Rightarrow> \<forall>c \<in> set (fst (findBestEncode cfg enc p mw)). succeeds enc p c)"
proof (cases rule: findBestEncode_cases [of cfg enc p mw])
  case (fail e)
  with descent_log [of cfg enc p "startWidth cfg mw" 0] show ?thesis
    by (simp add: findBestEncode_fail)
next
  case (found c)
  with descent_log [of cfg enc p "startWidth cfg mw" 0] show ?thesis
    by (simp add: findBestEncode_found)
next
  case (fallback_fail e)
  with descent_log [of cfg enc p "startWidth cfg mw" 0] show ?thesis
    by (simp add: findBestEncode_fallback_fail)
next
  case (fallback b)
  with descent_log [of cfg enc p "startWidth cfg mw" 0] show ?thesis
    by (simp add: findBestEncode_fallback succeeds_def)
qed

lemma last_if_not_in_butlast: "x \<in> set xs \<Longrightarrow> x \<notin> set (butlast xs) \<Longrightarrow> last xs = x"
  by (induction xs) (auto split: if_splits)

lemma callsOf_length:
  "\<forall>r \<in> set rs. length (snd r) \<le> B \<Longrightarrow> length (callsOf rs) \<le> length rs * B"
proof (induction rs)
  case Nil
  then show ?case by (simp add: callsOf_Nil)
next
  case (Cons r rs)
  obtain w qs where r: "r = (w, qs)" by (cases r)
  from Cons.prems have "length qs \<le> B" and "\<forall>r \<in> set rs. length (snd r) \<le> B"
    by (simp_all add: r)
  with Cons.IH show ?case by (simp add: r callsOf_Cons)
qed

lemma findBestEncode_calls_length:
  "length (fst (findBestEncode cfg enc p mw)) \<le>
     length (callsOf (fst (descent cfg enc p (startWidth cfg mw) 0))) + 1"
  by (cases rule: findBestEncode_cases [of cfg enc p mw])
     (simp_all add: findBestEncode_fail findBestEncode_found findBestEncode_fallback_fail
        findBestEncode_fallback)

lemma descent_first_round:
  "attempt \<le> maxDownscales cfg \<Longrightarrow>
   \<exists>rs. fst (descent cfg enc p w attempt) =
     (w, fst (qualitySearch cfg enc p w (minQ cfg) (maxQ cfg) None)) # rs"
proof -
  assume a: "attempt \<le> maxDownscales cfg"
  show ?thesis
  proof (cases "snd (qualitySearch cfg enc p w (minQ cfg) (maxQ cfg) None)")
    case (Inl e)
    from descent_fail [OF a Inl] show ?thesis by simp
  next
    case (Inr r)
    show ?thesis
    proof (cases r)
      case (Some c)
      with Inr a show ?thesis by (simp add: descent_found)
    next
      case None
      with Inr have n: "snd (qualitySearch cfg enc p w (minQ cfg) (maxQ cfg) None) = Inr None"
        by simp
      show ?thesis
        using descent_floor [OF a n] descent_next [OF a n]
        by (cases "nextWidth cfg w = w") simp_all
    qed
  qed
qed

lemma startWidth_falsy:
  "mw = None \<or> mw = Some 0 \<Longrightarrow> startWidth cfg mw = maxWidth cfg"
  by (auto simp: startWidth_def metaWidthOr_def widthOr_def)

lemma startWidth_maxWidth: "startWidth cfg (Some (maxWidth cfg)) = maxWidth cfg"
  by (simp add: startWidth_def metaWidthOr_def widthOr_def)

text \<open>
  From 320 pixels up, with a scale step of at most 1, the widths of the rounds decrease
  strictly and stay between 320 and the starting width.
\<close>

lemma nextWidth_le:
  assumes "scaleStep cfg \<le> 1" and "320 \<le> w"
  shows "320 \<le> nextWidth cfg w \<and> nextWidth cfg w \<le> w"
proof -
  from assms(2) have wo: "widthOr w (maxWidth cfg) = w" by (simp add: widthOr_def)
  have "rat_of_nat w * scaleStep cfg \<le> rat_of_nat w"
    using assms(1) by (simp add: mult_left_le)
  then have "\<lfloor>rat_of_nat w * scaleStep cfg\<rfloor> \<le> \<lfloor>rat_of_nat w\<rfloor>" by (rule floor_mono)
  then have "nat \<lfloor>rat_of_nat w * scaleStep cfg\<rfloor> \<le> w" by simp
  with assms(2) show ?thesis by (simp add: nextWidth_def wo)
qed

lemma descent_widths_decrease:
  assumes "scaleStep cfg \<le> 1" and "320 \<le> w"
  shows "sorted_wrt (\<lambda>a b. b < a) (map fst (fst (descent cfg enc p w attempt))) \<and>
         (\<forall>r \<in> set (fst (descent cfg enc p w attempt)). 320 \<le> fst r \<and> fst r \<le> w)"
  using assms(2)
proof (induction w attempt rule: descent_induct [where cfg = cfg and enc = enc and p = p])
  case (exit w attempt)
  then show ?case by (simp add: descent_exit)
next
  case (fail w attempt e)
  then show ?case by (simp add: descent_fail)
next
  case (found w attempt c)
  then show ?case by (simp add: descent_found)
next
  case (floor w attempt)
  then show ?case by (simp add: descent_floor)
next
  case (shrink w attempt)
  from nextWidth_le [OF assms(1) shrink.prems] shrink(3)
  have n: "320 \<le> nextWidth cfg w" "nextWidth cfg w < w" by simp_all
  from shrink.IH [OF n(1)] n(2) shrink(1,2,3) shrink.prems show ?case
    by (auto simp: descent_next)
qed

section \<open>Evaluation on concrete inputs\<close>

text \<open>
  Evaluation of the loops on concrete inputs: a scale step that is a fraction of whole
  numbers, and the loop equations guarded by their loop conditions.
\<close>

lemma nextWidth_fraction:
  "scaleStep cfg = rat_of_nat a / rat_of_nat b \<Longrightarrow>
   nextWidth cfg w = max 320 (widthOr w (maxWidth cfg) * a div b)"
proof -
  assume s: "scaleStep cfg = rat_of_nat a / rat_of_nat b"
  have "rat_of_nat (widthOr w (maxWidth cfg)) * scaleStep cfg =
        rat_of_nat (widthOr w (maxWidth cfg) * a) / rat_of_nat b"
    by (simp add: s)
  then have "\<lfloor>rat_of_nat (widthOr w (maxWidth cfg)) * scaleStep cfg\<rfloor> =
        int (widthOr w (maxWidth cfg) * a div b)"
    by (simp only: floor_divide_of_nat_eq)
  then show ?thesis by (simp add: nextWidth_def)
qed

lemma nextWidth_default:
  "nextWidth defaultConfig w = max 320 (widthOr w 1600 * 9 div 10)"
  using nextWidth_fraction [of defaultConfig 9 10 w] by (simp add: defaultConfig_def)

lemma defaultConfig_simps:
  "targetBytes defaultConfig = 307200" "maxWidth defaultConfig = 1600"
  "minQ defaultConfig = 65" "maxQ defaultConfig = 95"
  "maxDownscales defaultConfig = 4" "scaleStep defaultConfig = 9 / 10"
  by (simp_all add: defaultConfig_def)

lemma qualitySearch_eval:
  "lo \<le> hi \<Longrightarrow>
   qualitySearch cfg enc p w lo hi best =
     (case enc p w (roundHalf (lo + hi)) of
        Inl e \<Rightarrow> ([roundHalf (lo + hi)], Inl e)
      | Inr b \<Rightarrow>
          apfst (Cons (roundHalf (lo + hi)))
            (if length b \<le> targetBytes cfg
             then qualitySearch cfg enc p w (roundHalf (lo + hi) + 1) hi
                    (Some \<lparr>buf = b, width = w, quality = roundHalf (lo + hi),
                           bytes = length b, bestEffort = None\<rparr>)
             else qualitySearch cfg enc p w lo (roundHalf (lo + hi) - 1) best))"
  by (simp add: qualitySearch.simps [of cfg enc p w lo hi] Let_def apfst_def map_prod_def
      split: sum.splits)

lemma descent_eval:
  "attempt \<le> maxDownscales cfg \<Longrightarrow>
   descent cfg enc p w attempt =
     (case qualitySearch cfg enc p w (minQ cfg) (maxQ cfg) None of
        (qs, Inl e) \<Rightarrow> ([(w, qs)], Inl e)
      | (qs, Inr (Some bestLocal)) \<Rightarrow> ([(w, qs)], Inr (Some bestLocal))
      | (qs, Inr None) \<Rightarrow>
          (if nextWidth cfg w = w then ([(w, qs)], Inr None)
           else apfst (Cons (w, qs)) (descent cfg enc p (nextWidth cfg w) (attempt + 1))))"
  by (simp add: descent.simps [of cfg enc p w attempt] apfst_def map_prod_def
      split: sum.splits prod.splits option.splits)

lemmas eval_simps =
  qualitySearch_eval qualitySearch_exit descent_eval descent_exit roundHalf_def
  syntheticEncoder_def defaultConfig_simps nextWidth_default widthOr_def

text \<open>
  A 2000 pixel wide source under the default constants and the size model
  \<open>width * quality * 3\<close>: nothing fits at 1600 pixels, quality 71 fits at 1440.
\<close>

lemma run_fits_after_one_downscale:
  "findBestEncode defaultConfig (syntheticEncoder 3) ''photo.png'' (Some 2000) =
     ([(1600, 80), (1600, 72), (1600, 68), (1600, 66), (1600, 65),
       (1440, 80), (1440, 72), (1440, 68), (1440, 70), (1440, 71)],
      Inr \<lparr>buf = replicate 306720 0, width = 1440, quality = 71, bytes = 306720,
           bestEffort = None\<rparr>)"
  by (simp add: findBestEncode_def startWidth_def metaWidthOr_def callsOf_def eval_simps)

text \<open>The size model \<open>width * quality * 100\<close>: nothing fits in any of the five rounds.\<close>

lemma descent_nothing_fits:
  "descent defaultConfig (syntheticEncoder 100) ''photo.png'' 1600 0 =
     ([(1600, [80, 72, 68, 66, 65]), (1440, [80, 72, 68, 66, 65]),
       (1296, [80, 72, 68, 66, 65]), (1166, [80, 72, 68, 66, 65]),
       (1049, [80, 72, 68, 66, 65])], Inr None)"
  by (simp add: eval_simps)

lemma startWidth_2000: "startWidth defaultConfig (Some 2000) = 1600"
  by (simp add: startWidth_def metaWidthOr_def widthOr_def defaultConfig_simps)

lemma encBytes_synthetic: "encBytes (syntheticEncoder k) p w q = w * nat q * k"
  by (simp add: encBytes_def syntheticEncoder_def)

text \<open>A source that the encoder rejects: the first probe throws.\<close>

lemma run_corrupt_source:
  "findBestEncode defaultConfig corruptEncoder ''broken.jpg'' (Some 2000) =
     ([(1600, 80)], Inl (EncoderFailure ''unsupported image format''))"
  by (simp add: findBestEncode_def startWidth_def metaWidthOr_def callsOf_def
      qualitySearch_eval descent_eval roundHalf_def corruptEncoder_def defaultConfig_simps
      widthOr_def)

lemma fixedQualityConfig_simps:
  "minQ fixedQualityConfig = 80" "maxQ fixedQualityConfig = 80"
  "maxDownscales fixedQualityConfig = 4"
  by (simp_all add: fixedQualityConfig_def defaultConfig_def)

lemma thumbnailConfig_simps:
  "targetBytes thumbnailConfig = 1024" "maxWidth thumbnailConfig = 1600"
  "minQ thumbnailConfig = 65" "maxQ thumbnailConfig = 95"
  "maxDownscales thumbnailConfig = 4" "scaleStep thumbnailConfig = 9 / 10"
  by (simp_all add: thumbnailConfig_def defaultConfig_def)

lemma nextWidth_thumbnail:
  "nextWidth thumbnailConfig w = max 320 (widthOr w 1600 * 9 div 10)"
  using nextWidth_fraction [of thumbnailConfig 9 10 w] by (simp add: thumbnailConfig_simps)

lemma sample_configs_valid:
  "validConfig defaultConfig" "validConfig thumbnailConfig" "validConfig fixedQualityConfig"
  by (simp_all add: validConfig_def thumbnailConfig_def fixedQualityConfig_def
      defaultConfig_def)

section \<open>The properties of the specification\<close>

text \<open>
  C1. At a fixed width, with an encoder that succeeds on the quality range and whose byte
  length does not decrease when the quality grows, the inner quality search returns the
  highest quality in \<open>[minQ, maxQ]\<close> whose encode has at most \<^verbatim>\<open>TARGET_BYTES\<close> bytes,
  with the buffer, the width and the byte length of that encode; it returns no candidate
  exactly when the encode at \<open>minQ\<close> is over the target.
\<close>

theorem qualitySearch_highest_quality:
  assumes "minQ cfg \<le> maxQ cfg"
    and "\<forall>q \<in> {minQ cfg..maxQ cfg}. \<exists>b. enc p w q = Inr b"
    and "\<forall>q \<in> {minQ cfg..maxQ cfg}. \<forall>q' \<in> {minQ cfg..maxQ cfg}.
           q \<le> q' \<longrightarrow> encBytes enc p w q \<le> encBytes enc p w q'"
  shows "\<exists>r. snd (qualitySearch cfg enc p w (minQ cfg) (maxQ cfg) None) = Inr r \<and>
           (r = None \<longleftrightarrow> targetBytes cfg < encBytes enc p w (minQ cfg)) \<and>
           (\<forall>c. r = Some c \<longrightarrow>
              minQ cfg \<le> quality c \<and> quality c \<le> maxQ cfg \<and>
              enc p w (quality c) = Inr (buf c) \<and> width c = w \<and>
              bytes c = length (buf c) \<and> bytes c \<le> targetBytes cfg \<and>
              (\<forall>q. quality c < q \<and> q \<le> maxQ cfg \<longrightarrow>
                 targetBytes cfg < encBytes enc p w q))"
proof -
  have ok: "\<forall>q \<in> {minQ cfg..maxQ cfg}. succeeds enc p (w, q)"
    using assms(2) by (simp add: succeeds_iff)
  from qualitySearch_max [where enc = enc and p = p and w = w and cfg = cfg and best = None,
      OF ok assms(3)]
  obtain r where r: "snd (qualitySearch cfg enc p w (minQ cfg) (maxQ cfg) None) = Inr r"
    and none: "(\<forall>q \<in> {minQ cfg..maxQ cfg}. targetBytes cfg < encBytes enc p w q) \<longrightarrow> r = None"
    and some: "(\<exists>q \<in> {minQ cfg..maxQ cfg}. encBytes enc p w q \<le> targetBytes cfg) \<longrightarrow>
        (\<exists>c. r = Some c \<and> quality c \<in> {minQ cfg..maxQ cfg} \<and>
           enc p w (quality c) = Inr (buf c) \<and> width c = w \<and> bytes c = length (buf c) \<and>
           bytes c \<le> targetBytes cfg \<and> bestEffort c = None \<and>
           (\<forall>q \<in> {minQ cfg..maxQ cfg}. quality c < q \<longrightarrow>
              targetBytes cfg < encBytes enc p w q))"
    by blast
  have lo: "minQ cfg \<in> {minQ cfg..maxQ cfg}" using assms(1) by simp
  show ?thesis
  proof (cases "targetBytes cfg < encBytes enc p w (minQ cfg)")
    case True
    have "\<forall>q \<in> {minQ cfg..maxQ cfg}. targetBytes cfg < encBytes enc p w q"
    proof
      fix q assume q: "q \<in> {minQ cfg..maxQ cfg}"
      with assms(3) lo have "encBytes enc p w (minQ cfg) \<le> encBytes enc p w q" by simp
      with True show "targetBytes cfg < encBytes enc p w q" by simp
    qed
    with none have "r = None" by blast
    with r True show ?thesis by simp
  next
    case False
    with lo have "\<exists>q \<in> {minQ cfg..maxQ cfg}. encBytes enc p w q \<le> targetBytes cfg"
      by (intro bexI [of _ "minQ cfg"]) simp_all
    with some obtain c where c: "r = Some c" "quality c \<in> {minQ cfg..maxQ cfg}"
      "enc p w (quality c) = Inr (buf c)" "width c = w" "bytes c = length (buf c)"
      "bytes c \<le> targetBytes cfg"
      "\<forall>q \<in> {minQ cfg..maxQ cfg}. quality c < q \<longrightarrow> targetBytes cfg < encBytes enc p w q"
      by blast
    have "\<forall>q. quality c < q \<and> q \<le> maxQ cfg \<longrightarrow> targetBytes cfg < encBytes enc p w q"
      using c(2,7) by auto
    with r c False show ?thesis by simp
  qed
qed

theorem qualitySearch_highest_quality_witness:
  "\<exists>c. snd (qualitySearch defaultConfig (syntheticEncoder 3) ''photo.png'' 1440
             (minQ defaultConfig) (maxQ defaultConfig) None) = Inr (Some c) \<and>
       quality c = 71 \<and> width c = 1440 \<and> buf c = replicate 306720 0 \<and> bytes c = 306720"
proof -
  have 1: "minQ defaultConfig \<le> maxQ defaultConfig"
    by (simp add: defaultConfig_simps)
  have 2: "\<forall>q \<in> {minQ defaultConfig..maxQ defaultConfig}.
      \<exists>b. syntheticEncoder 3 ''photo.png'' 1440 q = Inr b"
    by (simp add: syntheticEncoder_def)
  have 3: "\<forall>q \<in> {minQ defaultConfig..maxQ defaultConfig}.
      \<forall>q' \<in> {minQ defaultConfig..maxQ defaultConfig}.
        q \<le> q' \<longrightarrow> encBytes (syntheticEncoder 3) ''photo.png'' 1440 q
          \<le> encBytes (syntheticEncoder 3) ''photo.png'' 1440 q'"
    by (simp add: encBytes_synthetic nat_mono)
  from qualitySearch_highest_quality [OF 1 2 3]
  obtain r where r: "snd (qualitySearch defaultConfig (syntheticEncoder 3) ''photo.png'' 1440
      (minQ defaultConfig) (maxQ defaultConfig) None) = Inr r"
    and n: "r = None \<longleftrightarrow> targetBytes defaultConfig
      < encBytes (syntheticEncoder 3) ''photo.png'' 1440 (minQ defaultConfig)"
    and s: "\<forall>c. r = Some c \<longrightarrow>
        minQ defaultConfig \<le> quality c \<and> quality c \<le> maxQ defaultConfig \<and>
        syntheticEncoder 3 ''photo.png'' 1440 (quality c) = Inr (buf c) \<and> width c = 1440 \<and>
        bytes c = length (buf c) \<and> bytes c \<le> targetBytes defaultConfig \<and>
        (\<forall>q. quality c < q \<and> q \<le> maxQ defaultConfig \<longrightarrow>
           targetBytes defaultConfig < encBytes (syntheticEncoder 3) ''photo.png'' 1440 q)"
    by blast
  from n have "r \<noteq> None" by (simp add: encBytes_synthetic defaultConfig_simps)
  then obtain c where c: "r = Some c" by auto
  with s have lo: "65 \<le> quality c"
    and b: "buf c = replicate (1440 * nat (quality c) * 3) 0"
    and w: "width c = 1440" and l: "bytes c = length (buf c)"
    and fit: "bytes c \<le> 307200"
    and mx: "\<forall>q. quality c < q \<and> q \<le> 95 \<longrightarrow> 307200 < 1440 * nat q * 3"
    by (auto simp: syntheticEncoder_def encBytes_synthetic defaultConfig_simps)
  from b l fit have "1440 * nat (quality c) * 3 \<le> 307200" by simp
  then have up: "quality c \<le> 71" by linarith
  from mx [rule_format, of 71] have "\<not> quality c < 71" by auto
  with up have q: "quality c = 71" by linarith
  with b l have "buf c = replicate 306720 0" "bytes c = 306720" by simp_all
  with r c q w show ?thesis by simp
qed

text \<open>
  C2. Whenever the encoder succeeds and \<^verbatim>\<open>findBestEncode\<close> returns an outcome that is
  not flagged \<^verbatim>\<open>bestEffort\<close>, the byte length of the outcome is at most
  \<^verbatim>\<open>TARGET_BYTES\<close>.
\<close>

theorem findBestEncode_within_target:
  assumes "findBestEncode cfg enc p mw = (calls, Inr out)"
    and "bestEffort out \<noteq> Some True"
  shows "bytes out \<le> targetBytes cfg"
proof (cases rule: findBestEncode_cases [of cfg enc p mw])
  case (fail e)
  with assms show ?thesis by (simp add: findBestEncode_fail)
next
  case (found c)
  with assms(1) have "out = c" by (simp add: findBestEncode_found)
  with descent_candidate [OF found] show ?thesis by simp
next
  case (fallback_fail e)
  with assms show ?thesis by (simp add: findBestEncode_fallback_fail)
next
  case (fallback b)
  with assms show ?thesis by (auto simp: findBestEncode_fallback)
qed

theorem findBestEncode_within_target_witness:
  "snd (findBestEncode defaultConfig (syntheticEncoder 3) ''photo.png'' (Some 2000)) =
     Inr \<lparr>buf = replicate 306720 0, width = 1440, quality = 71, bytes = 306720,
          bestEffort = None\<rparr> \<and>
   bytes \<lparr>buf = replicate 306720 0, width = 1440, quality = 71, bytes = 306720,
          bestEffort = None\<rparr> \<le> targetBytes defaultConfig"
  using findBestEncode_within_target [OF run_fits_after_one_downscale]
  by (simp add: run_fits_after_one_downscale)

text \<open>
  C3. When the descent loop ends without a candidate, \<^verbatim>\<open>findBestEncode\<close> returns the
  encode at \<open>minQ\<close> and at the starting width, which is \<open>min naturalWidth maxWidth\<close>
  for a natural width that is present, flagged \<^verbatim>\<open>bestEffort: true\<close>, whatever its
  byte length.
\<close>

theorem findBestEncode_fallback_outcome:
  assumes "snd (descent cfg enc p (startWidth cfg mw) 0) = Inr None"
    and "enc p (startWidth cfg mw) (minQ cfg) = Inr b"
  shows "snd (findBestEncode cfg enc p mw) =
           Inr \<lparr>buf = b, width = startWidth cfg mw, quality = minQ cfg, bytes = length b,
                bestEffort = Some True\<rparr> \<and>
         (\<forall>n. mw = Some n \<and> 0 < n \<longrightarrow> startWidth cfg mw = min n (maxWidth cfg))"
  using assms by (auto simp: findBestEncode_fallback startWidth_def metaWidthOr_def widthOr_def)

theorem findBestEncode_fallback_outcome_witness:
  "snd (findBestEncode defaultConfig (syntheticEncoder 100) ''photo.png'' (Some 2000)) =
     Inr \<lparr>buf = replicate 10400000 0, width = 1600, quality = 65, bytes = 10400000,
          bestEffort = Some True\<rparr> \<and>
   startWidth defaultConfig (Some 2000) = min 2000 (maxWidth defaultConfig)"
proof -
  have 1: "snd (descent defaultConfig (syntheticEncoder 100) ''photo.png''
      (startWidth defaultConfig (Some 2000)) 0) = Inr None"
    by (simp add: startWidth_2000 descent_nothing_fits)
  have 2: "syntheticEncoder 100 ''photo.png'' (startWidth defaultConfig (Some 2000))
      (minQ defaultConfig) = Inr (replicate 10400000 0)"
    by (simp add: startWidth_2000 defaultConfig_simps syntheticEncoder_def)
  from findBestEncode_fallback_outcome [OF 1 2] show ?thesis
    by (simp add: startWidth_2000 defaultConfig_simps)
qed

text \<open>
  C4. The claim: the widths passed to the encoder never increase from one downscale
  round to the next, none exceeds \<open>min naturalWidth maxWidth\<close>, and they decrease strictly
  down to the floor width. From a starting width of 320 pixels or more that is what
  \<open>descent\<close> does (\<open>descent_widths_decrease\<close>). Below 320 pixels it is not: for a 200
  pixel wide source, \<^verbatim>\<open>--target 1\<close> and 200 * quality bytes per encode, the second round
  asks the encoder for width 320.
\<close>

theorem descent_width_increases:
  "startWidth thumbnailConfig (Some 200) = 200 \<and>
   fst (descent thumbnailConfig (syntheticEncoder 1) ''icon.png''
          (startWidth thumbnailConfig (Some 200)) 0) =
     [(200, [80, 72, 68, 66, 65]), (320, [80, 72, 68, 66, 65])] \<and>
   findBestEncode thumbnailConfig (syntheticEncoder 1) ''icon.png'' (Some 200) =
     ([(200, 80), (200, 72), (200, 68), (200, 66), (200, 65),
       (320, 80), (320, 72), (320, 68), (320, 66), (320, 65),
       (200, 65)],
      Inr \<lparr>buf = replicate 13000 0, width = 200, quality = 65, bytes = 13000,
           bestEffort = Some True\<rparr>)"
  by (simp add: findBestEncode_def startWidth_def metaWidthOr_def callsOf_def
      qualitySearch_eval qualitySearch_exit descent_eval descent_exit roundHalf_def
      syntheticEncoder_def thumbnailConfig_simps nextWidth_thumbnail widthOr_def)

text \<open>
  C5. When every encoder call of a run succeeds, \<^verbatim>\<open>findBestEncode\<close> returns an
  outcome, and the outcome is flagged \<^verbatim>\<open>bestEffort: true\<close> exactly when the descent
  found no qualifying candidate: that case is never an error.
\<close>

theorem findBestEncode_always_outcome:
  assumes "\<forall>c \<in> set (fst (findBestEncode cfg enc p mw)). \<exists>b. enc p (fst c) (snd c) = Inr b"
  shows "\<exists>out. snd (findBestEncode cfg enc p mw) = Inr out \<and>
           (snd (descent cfg enc p (startWidth cfg mw) 0) = Inr None \<longleftrightarrow>
            bestEffort out = Some True)"
proof (cases rule: findBestEncode_cases [of cfg enc p mw])
  case (fail e)
  with findBestEncode_log [of cfg enc p mw]
  have ne: "fst (findBestEncode cfg enc p mw) \<noteq> []"
    and "enc p (fst (last (fst (findBestEncode cfg enc p mw))))
           (snd (last (fst (findBestEncode cfg enc p mw)))) = Inl e"
    by (simp_all add: findBestEncode_fail)
  moreover from ne assms
  have "\<exists>b. enc p (fst (last (fst (findBestEncode cfg enc p mw))))
           (snd (last (fst (findBestEncode cfg enc p mw)))) = Inr b"
    using last_in_set by blast
  ultimately show ?thesis by simp
next
  case (found c)
  with descent_candidate [OF found] show ?thesis by (simp add: findBestEncode_found)
next
  case (fallback_fail e)
  then have "(startWidth cfg mw, minQ cfg) \<in> set (fst (findBestEncode cfg enc p mw))"
    by (simp add: findBestEncode_fallback_fail)
  with assms have "\<exists>b. enc p (startWidth cfg mw) (minQ cfg) = Inr b" by fastforce
  with fallback_fail(2) show ?thesis by simp
next
  case (fallback b)
  then show ?thesis by (simp add: findBestEncode_fallback)
qed

theorem findBestEncode_always_outcome_witness:
  "\<exists>out. snd (findBestEncode defaultConfig (syntheticEncoder 100) ''photo.png'' (Some 2000))
       = Inr out \<and>
     (snd (descent defaultConfig (syntheticEncoder 100) ''photo.png''
             (startWidth defaultConfig (Some 2000)) 0) = Inr None \<longleftrightarrow>
      bestEffort out = Some True)"
proof -
  have "\<forall>c \<in> set (fst (findBestEncode defaultConfig (syntheticEncoder 100) ''photo.png''
      (Some 2000))). \<exists>b. syntheticEncoder 100 ''photo.png'' (fst c) (snd c) = Inr b"
    by (simp add: syntheticEncoder_def)
  from findBestEncode_always_outcome [OF this] show ?thesis .
qed

text \<open>
  C6. Every run ends: \<open>qualitySearch\<close> and \<open>descent\<close> are total functions, their
  recursion decreasing \<open>hi - lo + 1\<close> and \<open>maxDownscales + 1 - attempt\<close>. At each width
  the quality search makes at most \<open>\<lfloor>log\<^sub>2 (maxQ - minQ + 1)\<rfloor> + 1\<close> encoder calls
  (\<open>floorlog 2\<close> of the size of the range), exactly one when \<open>minQ = maxQ\<close>; the outer loop
  runs at most \<open>maxDownscales + 1\<close> rounds; with the fallback encode a run makes at most
  \<open>(maxDownscales + 1) * (\<lfloor>log\<^sub>2 (maxQ - minQ + 1)\<rfloor> + 1) + 1\<close> encoder calls.
\<close>

theorem findBestEncode_probe_bounds:
  "length (fst (qualitySearch cfg enc p w (minQ cfg) (maxQ cfg) None))
     \<le> floorlog 2 (nat (maxQ cfg - minQ cfg + 1)) \<and>
   (minQ cfg = maxQ cfg \<longrightarrow>
      length (fst (qualitySearch cfg enc p w (minQ cfg) (maxQ cfg) None)) = 1) \<and>
   length (fst (descent cfg enc p w 0)) \<le> maxDownscales cfg + 1 \<and>
   length (fst (findBestEncode cfg enc p mw))
     \<le> (maxDownscales cfg + 1) * floorlog 2 (nat (maxQ cfg - minQ cfg + 1)) + 1"
proof -
  let ?B = "floorlog 2 (nat (maxQ cfg - minQ cfg + 1))"
  have a: "length (fst (qualitySearch cfg enc p w (minQ cfg) (maxQ cfg) None)) \<le> ?B"
    by (rule qualitySearch_probe_count)
  have b: "minQ cfg = maxQ cfg \<longrightarrow>
      length (fst (qualitySearch cfg enc p w (minQ cfg) (maxQ cfg) None)) = 1"
    using qualitySearch_single [of cfg enc p w "maxQ cfg" None] by simp
  have c: "length (fst (descent cfg enc p w 0)) \<le> maxDownscales cfg + 1"
    using descent_rounds [of cfg enc p w 0] by simp
  let ?rs = "fst (descent cfg enc p (startWidth cfg mw) 0)"
  from descent_rounds [of cfg enc p "startWidth cfg mw" 0]
  have l: "length ?rs \<le> maxDownscales cfg + 1" and "\<forall>r \<in> set ?rs. length (snd r) \<le> ?B"
    by simp_all
  from callsOf_length [OF this(2)] have "length (callsOf ?rs) \<le> length ?rs * ?B" .
  also from l have "\<dots> \<le> (maxDownscales cfg + 1) * ?B" by (rule mult_le_mono1)
  finally have "length (callsOf ?rs) \<le> (maxDownscales cfg + 1) * ?B" .
  with findBestEncode_calls_length [of cfg enc p mw]
  have d: "length (fst (findBestEncode cfg enc p mw)) \<le> (maxDownscales cfg + 1) * ?B + 1"
    by linarith
  from a b c d show ?thesis by blast
qed

theorem findBestEncode_probe_bounds_witness:
  "length (fst (qualitySearch fixedQualityConfig (syntheticEncoder 3) ''photo.png'' 1600
      (minQ fixedQualityConfig) (maxQ fixedQualityConfig) None)) = 1 \<and>
   length (fst (descent fixedQualityConfig (syntheticEncoder 3) ''photo.png'' 1600 0)) \<le> 5 \<and>
   length (fst (findBestEncode fixedQualityConfig (syntheticEncoder 3) ''photo.png''
      (Some 2000))) \<le> 6"
proof -
  have f: "floorlog 2 (Suc 0) = 1"
    by (simp add: floorlog_def)
  from findBestEncode_probe_bounds [of fixedQualityConfig "syntheticEncoder 3" "''photo.png''"
      1600 "Some 2000"]
  show ?thesis by (simp add: f fixedQualityConfig_simps)
qed

text \<open>
  C7. When an encoder call of a run fails, \<^verbatim>\<open>findBestEncode\<close> ends with that error and
  returns no outcome; the failing call is the last call of the run and was not made
  before, so nothing is retried and nothing is caught.
\<close>

theorem findBestEncode_error_propagates:
  assumes "c \<in> set (fst (findBestEncode cfg enc p mw))"
    and "enc p (fst c) (snd c) = Inl e"
  shows "snd (findBestEncode cfg enc p mw) = Inl e \<and>
         last (fst (findBestEncode cfg enc p mw)) = c \<and>
         c \<notin> set (butlast (fst (findBestEncode cfg enc p mw)))"
proof -
  let ?log = "fst (findBestEncode cfg enc p mw)"
  note L = findBestEncode_log [of cfg enc p mw]
  from assms(2) have nc: "\<not> succeeds enc p c" by (simp add: succeeds_def)
  with L have nb: "c \<notin> set (butlast ?log)" by blast
  from assms(1) nb have lc: "last ?log = c" by (rule last_if_not_in_butlast)
  obtain e' where e': "snd (findBestEncode cfg enc p mw) = Inl e'"
    using L nc assms(1) by (cases "snd (findBestEncode cfg enc p mw)") auto
  with L lc assms(2) have "e' = e" by simp
  with e' lc nb show ?thesis by simp
qed

theorem findBestEncode_error_propagates_witness:
  "snd (findBestEncode defaultConfig corruptEncoder ''broken.jpg'' (Some 2000)) =
     Inl (EncoderFailure ''unsupported image format'') \<and>
   last (fst (findBestEncode defaultConfig corruptEncoder ''broken.jpg'' (Some 2000))) =
     (1600, 80) \<and>
   (1600, 80) \<notin> set (butlast (fst (findBestEncode defaultConfig corruptEncoder ''broken.jpg''
     (Some 2000))))"
proof -
  have 1: "(1600, 80) \<in> set (fst (findBestEncode defaultConfig corruptEncoder ''broken.jpg''
      (Some 2000)))"
    by (simp add: run_corrupt_source)
  have 2: "corruptEncoder ''broken.jpg'' (fst (1600 :: nat, 80 :: int)) (snd (1600 :: nat, 80 :: int)) =
      Inl (EncoderFailure ''unsupported image format'')"
    by (simp add: corruptEncoder_def)
  from findBestEncode_error_propagates [OF 1 2] show ?thesis .
qed

text \<open>
  C8, as the code has it. For \<open>minQ \<le> maxQ\<close>, every outcome that \<^verbatim>\<open>findBestEncode\<close>
  returns either has no \<^verbatim>\<open>bestEffort\<close> property (it reads as \<^verbatim>\<open>undefined\<close>, which is
  falsy; it is never the boolean \<^verbatim>\<open>false\<close>), exactly when its byte length is at most
  \<^verbatim>\<open>TARGET_BYTES\<close>, or has \<^verbatim>\<open>bestEffort: true\<close>, exactly when the descent ended
  without a candidate and the fallback encode was returned.
\<close>

theorem findBestEncode_bestEffort_flag:
  assumes "minQ cfg \<le> maxQ cfg"
    and "snd (findBestEncode cfg enc p mw) = Inr out"
  shows "bestEffort out \<noteq> Some False \<and>
         (bestEffort out = None \<longleftrightarrow> bytes out \<le> targetBytes cfg) \<and>
         (bestEffort out = Some True \<longleftrightarrow>
            snd (descent cfg enc p (startWidth cfg mw) 0) = Inr None)"
proof (cases rule: findBestEncode_cases [of cfg enc p mw])
  case (fail e)
  with assms(2) show ?thesis by (simp add: findBestEncode_fail)
next
  case (found c)
  with assms(2) have "out = c" by (simp add: findBestEncode_found)
  with descent_candidate [OF found] found show ?thesis by simp
next
  case (fallback_fail e)
  with assms(2) show ?thesis by (simp add: findBestEncode_fallback_fail)
next
  case (fallback b)
  from descent_none_first_round [OF assms(1) fallback(1)] fallback(2)
  have "targetBytes cfg < length b" by simp
  moreover from assms(2) fallback
  have "out = \<lparr>buf = b, width = startWidth cfg mw, quality = minQ cfg, bytes = length b,
      bestEffort = Some True\<rparr>"
    by (simp add: findBestEncode_fallback)
  ultimately show ?thesis using fallback(1) by simp
qed

theorem findBestEncode_bestEffort_flag_witness:
  "bestEffort \<lparr>buf = replicate 306720 0, width = 1440, quality = 71, bytes = 306720,
      bestEffort = None\<rparr> \<noteq> Some False \<and>
   (bestEffort \<lparr>buf = replicate 306720 0, width = 1440, quality = 71, bytes = 306720,
      bestEffort = None\<rparr> = None \<longleftrightarrow>
    bytes \<lparr>buf = replicate 306720 0, width = 1440, quality = 71, bytes = 306720,
      bestEffort = None\<rparr> \<le> targetBytes defaultConfig) \<and>
   (bestEffort \<lparr>buf = replicate 306720 0, width = 1440, quality = 71, bytes = 306720,
      bestEffort = None\<rparr> = Some True \<longleftrightarrow>
    snd (descent defaultConfig (syntheticEncoder 3) ''photo.png''
      (startWidth defaultConfig (Some 2000)) 0) = Inr None)"
proof -
  have 1: "minQ defaultConfig \<le> maxQ defaultConfig" by (simp add: defaultConfig_simps)
  have 2: "snd (findBestEncode defaultConfig (syntheticEncoder 3) ''photo.png'' (Some 2000)) =
      Inr \<lparr>buf = replicate 306720 0, width = 1440, quality = 71, bytes = 306720,
      bestEffort = None\<rparr>"
    by (simp add: run_fits_after_one_downscale)
  from findBestEncode_bestEffort_flag [OF 1 2] show ?thesis .
qed

text \<open>
  C8 as stated asks for a boolean flag that is \<^verbatim>\<open>false\<close> when the byte-length
  constraint is satisfied. The outcome of this run satisfies the constraint and carries
  no flag.
\<close>

theorem bestEffort_flag_counterexample:
  "snd (findBestEncode defaultConfig (syntheticEncoder 3) ''photo.png'' (Some 2000)) =
     Inr \<lparr>buf = replicate 306720 0, width = 1440, quality = 71, bytes = 306720,
          bestEffort = None\<rparr> \<and>
   (306720 :: nat) \<le> targetBytes defaultConfig \<and>
   bestEffort \<lparr>buf = replicate 306720 0, width = 1440, quality = 71, bytes = 306720,
          bestEffort = None\<rparr> \<noteq> Some False"
  by (simp add: run_fits_after_one_downscale defaultConfig_simps)

text \<open>
  C9. The result of \<^verbatim>\<open>findBestEncode\<close>, with the sequence of its encoder calls, is
  determined by the configuration, the natural width and the answers of the encoder to
  the calls of the run: a second run whose encoder gives the same answers to these calls
  makes the same calls and returns the same buffer, byte length, width, quality and flag.
\<close>

theorem findBestEncode_deterministic:
  assumes "\<forall>c \<in> set (fst (findBestEncode cfg enc p mw)).
             enc' p (fst c) (snd c) = enc p (fst c) (snd c)"
  shows "findBestEncode cfg enc' p mw = findBestEncode cfg enc p mw"
proof -
  let ?d = "descent cfg enc p (startWidth cfg mw) 0"
  let ?d' = "descent cfg enc' p (startWidth cfg mw) 0"
  have sub: "set (callsOf (fst ?d)) \<subseteq> set (fst (findBestEncode cfg enc p mw))"
    by (cases rule: findBestEncode_cases [of cfg enc p mw])
       (auto simp: findBestEncode_fail findBestEncode_found findBestEncode_fallback_fail
          findBestEncode_fallback)
  have "\<forall>c \<in> set (callsOf (fst ?d)). enc p (fst c) (snd c) = enc' p (fst c) (snd c)"
  proof
    fix c assume "c \<in> set (callsOf (fst ?d))"
    with sub have "c \<in> set (fst (findBestEncode cfg enc p mw))" by blast
    with assms show "enc p (fst c) (snd c) = enc' p (fst c) (snd c)" by simp
  qed
  from descent_agree [where enc = enc and enc' = enc' and p = p, OF this]
  have d: "?d' = ?d" .
  show ?thesis
  proof (cases rule: findBestEncode_cases [of cfg enc p mw])
    case (fail e)
    with d have "snd ?d' = Inl e" by simp
    from findBestEncode_fail [OF this] findBestEncode_fail [OF fail] d show ?thesis by simp
  next
    case (found c)
    with d have "snd ?d' = Inr (Some c)" by simp
    from findBestEncode_found [OF this] findBestEncode_found [OF found] d show ?thesis by simp
  next
    case (fallback_fail e)
    note eq = findBestEncode_fallback_fail [OF fallback_fail]
    from fallback_fail d have n: "snd ?d' = Inr None" by simp
    from assms have "enc' p (startWidth cfg mw) (minQ cfg) = Inl e"
      using fallback_fail(2) by (simp add: eq)
    from findBestEncode_fallback_fail [OF n this] eq d show ?thesis by simp
  next
    case (fallback b)
    note eq = findBestEncode_fallback [OF fallback]
    from fallback d have n: "snd ?d' = Inr None" by simp
    from assms have "enc' p (startWidth cfg mw) (minQ cfg) = Inr b"
      using fallback(2) by (simp add: eq)
    from findBestEncode_fallback [OF n this] eq d show ?thesis by simp
  qed
qed

theorem findBestEncode_deterministic_witness:
  "findBestEncode defaultConfig (wideOnlyEncoder 3) ''photo.png'' (Some 2000) =
   findBestEncode defaultConfig (syntheticEncoder 3) ''photo.png'' (Some 2000)"
proof -
  have "\<forall>c \<in> set (fst (findBestEncode defaultConfig (syntheticEncoder 3) ''photo.png''
      (Some 2000))).
      wideOnlyEncoder 3 ''photo.png'' (fst c) (snd c) =
      syntheticEncoder 3 ''photo.png'' (fst c) (snd c)"
    by (simp add: run_fits_after_one_downscale wideOnlyEncoder_def)
  from findBestEncode_deterministic [where enc = "syntheticEncoder 3"
      and enc' = "wideOnlyEncoder 3", OF this]
  show ?thesis .
qed

text \<open>
  C10. With a missing or zero \<^verbatim>\<open>metaWidth\<close> the search runs as for a source of width
  \<^verbatim>\<open>MAX_WIDTH\<close>: the starting width and the width of the first round are
  \<^verbatim>\<open>MAX_WIDTH\<close>, and so is the width of the best-effort fallback encode.
\<close>

theorem findBestEncode_missing_width:
  assumes "mw = None \<or> mw = Some 0"
  shows "startWidth cfg mw = maxWidth cfg \<and>
         fst (hd (fst (descent cfg enc p (startWidth cfg mw) 0))) = maxWidth cfg \<and>
         (\<forall>b. snd (descent cfg enc p (startWidth cfg mw) 0) = Inr None \<and>
               enc p (maxWidth cfg) (minQ cfg) = Inr b \<longrightarrow>
               snd (findBestEncode cfg enc p mw) =
                 Inr \<lparr>buf = b, width = maxWidth cfg, quality = minQ cfg, bytes = length b,
                      bestEffort = Some True\<rparr>) \<and>
         findBestEncode cfg enc p mw = findBestEncode cfg enc p (Some (maxWidth cfg))"
proof -
  note s = startWidth_falsy [OF assms, of cfg]
  have a: "(0 :: nat) \<le> maxDownscales cfg" by simp
  from descent_first_round [OF a, of enc p "startWidth cfg mw"]
  have h: "fst (hd (fst (descent cfg enc p (startWidth cfg mw) 0))) = maxWidth cfg"
    by (auto simp: s)
  have f: "\<forall>b. snd (descent cfg enc p (startWidth cfg mw) 0) = Inr None \<and>
               enc p (maxWidth cfg) (minQ cfg) = Inr b \<longrightarrow>
               snd (findBestEncode cfg enc p mw) =
                 Inr \<lparr>buf = b, width = maxWidth cfg, quality = minQ cfg, bytes = length b,
                      bestEffort = Some True\<rparr>"
  proof (intro allI impI)
    fix b
    assume "snd (descent cfg enc p (startWidth cfg mw) 0) = Inr None \<and>
               enc p (maxWidth cfg) (minQ cfg) = Inr b"
    then have 1: "snd (descent cfg enc p (startWidth cfg mw) 0) = Inr None"
      and 2: "enc p (startWidth cfg mw) (minQ cfg) = Inr b"
      by (simp_all add: s)
    from findBestEncode_fallback [OF 1 2]
    show "snd (findBestEncode cfg enc p mw) =
                 Inr \<lparr>buf = b, width = maxWidth cfg, quality = minQ cfg, bytes = length b,
                      bestEffort = Some True\<rparr>"
      by (simp add: s)
  qed
  have e: "findBestEncode cfg enc p mw = findBestEncode cfg enc p (Some (maxWidth cfg))"
    by (simp only: findBestEncode_def s startWidth_maxWidth)
  from s h f e show ?thesis by blast
qed

theorem findBestEncode_missing_width_witness:
  "startWidth defaultConfig None = maxWidth defaultConfig \<and>
   fst (hd (fst (descent defaultConfig (syntheticEncoder 100) ''photo.png''
     (startWidth defaultConfig None) 0))) = maxWidth defaultConfig \<and>
   snd (findBestEncode defaultConfig (syntheticEncoder 100) ''photo.png'' None) =
     Inr \<lparr>buf = replicate 10400000 0, width = maxWidth defaultConfig,
          quality = minQ defaultConfig, bytes = 10400000, bestEffort = Some True\<rparr> \<and>
   findBestEncode defaultConfig (syntheticEncoder 100) ''photo.png'' None =
   findBestEncode defaultConfig (syntheticEncoder 100) ''photo.png''
     (Some (maxWidth defaultConfig))"
proof -
  have 1: "(None :: nat option) = None \<or> (None :: nat option) = Some 0" by simp
  note t = findBestEncode_missing_width [OF 1, of defaultConfig "syntheticEncoder 100"
      "''photo.png''"]
  from t have a: "startWidth defaultConfig None = maxWidth defaultConfig" by blast
  have d: "snd (descent defaultConfig (syntheticEncoder 100) ''photo.png''
      (startWidth defaultConfig None) 0) = Inr None"
    by (simp add: a defaultConfig_simps descent_nothing_fits)
  have e: "syntheticEncoder 100 ''photo.png'' (maxWidth defaultConfig) (minQ defaultConfig) =
      Inr (replicate 10400000 0)"
    by (simp add: syntheticEncoder_def defaultConfig_simps)
  from t d e have c: "snd (findBestEncode defaultConfig (syntheticEncoder 100) ''photo.png'' None) =
      Inr \<lparr>buf = replicate 10400000 0, width = maxWidth defaultConfig,
          quality = minQ defaultConfig, bytes = length (replicate 10400000 (0 :: 8 word)),
          bestEffort = Some True\<rparr>"
    by blast
  then have c': "snd (findBestEncode defaultConfig (syntheticEncoder 100) ''photo.png'' None) =
      Inr \<lparr>buf = replicate 10400000 0, width = maxWidth defaultConfig,
          quality = minQ defaultConfig, bytes = 10400000, bestEffort = Some True\<rparr>"
    by simp
  from t have h: "fst (hd (fst (descent defaultConfig (syntheticEncoder 100) ''photo.png''
     (startWidth defaultConfig None) 0))) = maxWidth defaultConfig"
    and eq: "findBestEncode defaultConfig (syntheticEncoder 100) ''photo.png'' None =
      findBestEncode defaultConfig (syntheticEncoder 100) ''photo.png''
        (Some (maxWidth defaultConfig))"
    by blast+
  show ?thesis by (intro conjI) (rule a, rule h, rule c', rule eq)
qed

end
